theory Spec2Isabelle
  imports Main
begin

section \<open>Characters, strings and numbers of the C++ source\<close>

text \<open>
  A \<^verbatim>\<open>std::string\<close> is a \<^typ>\<open>string\<close> (a list of 8-bit characters). The characters
  the source names that cannot stand in a string literal are given by their code.
\<close>

abbreviation newline :: char where "newline \<equiv> CHR 0x0A"
abbreviation tab :: char where "tab \<equiv> CHR 0x09"
abbreviation dquote :: char where "dquote \<equiv> CHR 0x22"
abbreviation backslash :: char where "backslash \<equiv> CHR 0x5C"
abbreviation backtick :: char where "backtick \<equiv> CHR 0x60"

text \<open>
  \<^verbatim>\<open>::tolower\<close> in the "C" locale: the letters A..Z (codes 65..90) move to a..z,
  every other character is left as it is.
\<close>

definition tolower :: "char \<Rightarrow> char" where
  "tolower c =
     (let n = (of_char c :: nat) in if 65 \<le> n \<and> n \<le> 90 then char_of (n + 32) else c)"

text \<open>
  \<^verbatim>\<open>std::isspace\<close> in the "C" locale, which is what \<^verbatim>\<open>\s\<close> of a \<^verbatim>\<open>std::regex\<close> over
  \<^verbatim>\<open>char\<close> tests: space, \<^verbatim>\<open>\t \n \v \f \r\<close>.
\<close>

definition isspace :: "char \<Rightarrow> bool" where
  "isspace c \<longleftrightarrow> c = CHR '' '' \<or> (9 \<le> (of_char c :: nat) \<and> (of_char c :: nat) \<le> 13)"

text \<open>
  \<^verbatim>\<open>std::to_string\<close> on the non-negative counts and sizes the source passes to it:
  the decimal digits, most significant first, no leading zero, \<^verbatim>\<open>"0"\<close> for zero.
\<close>

definition digit_char :: "nat \<Rightarrow> char" where
  "digit_char d = char_of (48 + d)"

fun to_string :: "nat \<Rightarrow> string" where
  "to_string n =
     (if n < 10 then [digit_char n] else to_string (n div 10) @ [digit_char (n mod 10)])"

declare to_string.simps [simp del]

section \<open>The Document structure\<close>

record Document =
  content :: string
  metadata :: "string \<rightharpoonup> string"
  format :: string
  pages :: "string list"

text \<open>The constructor \<^verbatim>\<open>Document(text, fmt)\<close>: the map and the pages start empty.\<close>

definition mkDocument :: "string \<Rightarrow> string \<Rightarrow> Document" where
  "mkDocument text fmt = \<lparr>content = text, metadata = Map.empty, format = fmt, pages = []\<rparr>"

section \<open>Exceptions\<close>

text \<open>
  Every exception the modelled code throws derives from \<^verbatim>\<open>std::exception\<close>:
  \<^item> \<open>CannotOpenFile f\<close> is \<^verbatim>\<open>runtime_error("Cannot open file: " + f)\<close> of \<^verbatim>\<open>readFile\<close>;
  \<^item> \<open>LengthError\<close> is the \<^verbatim>\<open>std::length_error\<close> of \<^verbatim>\<open>std::string(n, c)\<close> when \<open>n\<close>
    exceeds \<^verbatim>\<open>max_size()\<close>;
  \<^item> \<open>FailedToParse f e\<close> is \<^verbatim>\<open>runtime_error("Failed to parse " + f + ": " + e.what())\<close>;
  \<^item> \<open>NoSuitableParser f\<close> is \<^verbatim>\<open>runtime_error("No suitable parser found for: " + f)\<close>.
\<close>

datatype exn =
    CannotOpenFile string
  | LengthError
  | FailedToParse string exn
  | NoSuitableParser string

text \<open>
  A call that reaches \<^verbatim>\<open>std::regex_replace\<close> either returns (a value, or one of the
  exceptions above), or the process is killed: the matcher of the library (libstdc++)
  is recursive, and when its recursion outgrows the stack the process gets a signal.
  That is no C++ exception, and no \<^verbatim>\<open>catch\<close> of the program sees it.
\<close>

datatype 'a run = Killed | Returned 'a

section \<open>The base class DocumentParser\<close>

text \<open>
  The files the program can read: a map from file names to their bytes. \<^verbatim>\<open>readFile\<close>
  throws when the file cannot be opened.
\<close>

type_synonym filesystem = "string \<rightharpoonup> string"

definition readFile :: "filesystem \<Rightarrow> string \<Rightarrow> exn + string" where
  "readFile fs filename =
     (case fs filename of None \<Rightarrow> Inl (CannotOpenFile filename) | Some bytes \<Rightarrow> Inr bytes)"

definition toLowerCase :: "string \<Rightarrow> string" where
  "toLowerCase str = map tolower str"

text \<open>\<^verbatim>\<open>str.find_last_of(c)\<close>: the greatest index holding \<open>c\<close>, \<open>None\<close> for \<^verbatim>\<open>npos\<close>.\<close>

fun find_last_of :: "string \<Rightarrow> char \<Rightarrow> nat option" where
  "find_last_of [] c = None"
| "find_last_of (x # xs) c =
     (case find_last_of xs c of
        Some i \<Rightarrow> Some (Suc i)
      | None \<Rightarrow> if x = c then Some 0 else None)"

text \<open>
  \<^verbatim>\<open>filename.substr(dot + 1)\<close> is \<open>drop (dot + 1) filename\<close>: \<open>dot\<close> is an index of the
  string, so \<open>dot + 1\<close> is at most its size and \<^verbatim>\<open>substr\<close> does not throw.
\<close>

definition getFileExtension :: "string \<Rightarrow> string" where
  "getFileExtension filename =
     (case find_last_of filename (CHR ''.'') of
        Some dot \<Rightarrow> toLowerCase (drop (dot + 1) filename)
      | None \<Rightarrow> [])"

section \<open>TextParser\<close>

definition TextParser_canParse :: "string \<Rightarrow> bool" where
  "TextParser_canParse filename =
     (let ext = getFileExtension filename in ext = ''txt'' \<or> ext = ''text'')"

text \<open>\<^verbatim>\<open>std::count(content.begin(), content.end(), '\n')\<close>.\<close>

definition count_char :: "string \<Rightarrow> char \<Rightarrow> nat" where
  "count_char s c = length (filter (\<lambda>x. x = c) s)"

definition TextParser_parse :: "filesystem \<Rightarrow> string \<Rightarrow> exn + Document" where
  "TextParser_parse fs filename =
     (case readFile fs filename of
        Inl e \<Rightarrow> Inl e
      | Inr text \<Rightarrow>
          (let doc = mkDocument text ''text'';
               doc = doc\<lparr>metadata := (metadata doc)(''encoding'' \<mapsto> ''utf-8'')\<rparr>;
               doc = doc\<lparr>metadata :=
                        (metadata doc)(''lines'' \<mapsto> to_string (count_char text newline + 1))\<rparr>
           in Inr doc))"

section \<open>CSVParser\<close>

definition CSVParser_canParse :: "string \<Rightarrow> bool" where
  "CSVParser_canParse filename = (let ext = getFileExtension filename in ext = ''csv'')"

text \<open>
  The loop of \<^verbatim>\<open>parseCSVLine\<close> over the characters of the line, with its three
  variables \<^verbatim>\<open>fields\<close> (here \<open>flds\<close>), \<^verbatim>\<open>field\<close> and \<^verbatim>\<open>inQuotes\<close>; the last field is
  pushed after the loop.
\<close>

fun parseCSVLine_loop :: "string \<Rightarrow> string list \<Rightarrow> string \<Rightarrow> bool \<Rightarrow> string list" where
  "parseCSVLine_loop [] flds field inQuotes = flds @ [field]"
| "parseCSVLine_loop (c # cs) flds field inQuotes =
     (if c = dquote then parseCSVLine_loop cs flds field (\<not> inQuotes)
      else if c = CHR '','' \<and> \<not> inQuotes then parseCSVLine_loop cs (flds @ [field]) [] inQuotes
      else parseCSVLine_loop cs flds (field @ [c]) inQuotes)"

definition parseCSVLine :: "string \<Rightarrow> string list" where
  "parseCSVLine line = parseCSVLine_loop line [] [] False"

text \<open>
  \<^verbatim>\<open>while (std::getline(stream, line))\<close>: the lines of the stream, split at
  \<^verbatim>\<open>'\n'\<close>. A call of \<^verbatim>\<open>getline\<close> at the end of the stream extracts nothing and
  fails, so a final newline starts no further line and the empty stream has no line.
  The second argument is the line read so far.
\<close>

fun getlines :: "string \<Rightarrow> string \<Rightarrow> string list" where
  "getlines [] line = (if line = [] then [] else [line])"
| "getlines (c # cs) line =
     (if c = newline then line # getlines cs [] else getlines cs (line @ [c]))"

definition parseCSV :: "string \<Rightarrow> string list list" where
  "parseCSV text = map parseCSVLine (getlines text [])"

text \<open>
  The inner loop of \<^verbatim>\<open>CSVParser::parse\<close> over the fields of a row, from index \<open>i\<close>:
  the separator goes before every field but the first.
\<close>

fun format_row :: "nat \<Rightarrow> string list \<Rightarrow> string" where
  "format_row i [] = []"
| "format_row i (f # fs) = (if i > 0 then '' | '' else []) @ f @ format_row (Suc i) fs"

fun format_rows :: "string list list \<Rightarrow> string" where
  "format_rows [] = []"
| "format_rows (row # rows) = format_row 0 row @ [newline] @ format_rows rows"

definition CSVParser_parse :: "filesystem \<Rightarrow> string \<Rightarrow> exn + Document" where
  "CSVParser_parse fs filename =
     (case readFile fs filename of
        Inl e \<Rightarrow> Inl e
      | Inr text \<Rightarrow>
          (let doc = mkDocument text ''csv'';
               rows = parseCSV text;
               doc = doc\<lparr>metadata := (metadata doc)(''rows'' \<mapsto> to_string (length rows))\<rparr>;
               doc = (if rows \<noteq> []
                      then doc\<lparr>metadata :=
                             (metadata doc)(''columns'' \<mapsto> to_string (length (rows ! 0)))\<rparr>
                      else doc);
               doc = doc\<lparr>content := format_rows rows\<rparr>
           in Inr doc))"

section \<open>JSONParser\<close>

definition JSONParser_canParse :: "string \<Rightarrow> bool" where
  "JSONParser_canParse filename = (let ext = getFileExtension filename in ext = ''json'')"

text \<open>
  \<^verbatim>\<open>std::string(n, c)\<close> called with an \<^verbatim>\<open>int\<close> \<open>n\<close>, as \<^verbatim>\<open>formatJSON\<close> calls it. The
  constructor takes a \<^verbatim>\<open>size_type\<close>: a negative \<open>n\<close> converts to a value above
  \<^verbatim>\<open>max_size()\<close> (\<open>-2\<close> to \<open>2^64 - 2\<close>), and the constructor throws
  \<^verbatim>\<open>std::length_error\<close>. Otherwise the string is \<open>n\<close> copies of \<open>c\<close>.
\<close>

definition string_fill :: "int \<Rightarrow> char \<Rightarrow> exn + string" where
  "string_fill n c = (if n < 0 then Inl LengthError else Inr (replicate (nat n) c))"

text \<open>
  The loop of \<^verbatim>\<open>formatJSON\<close> from index \<open>i\<close>, with its variables \<^verbatim>\<open>result\<close>,
  \<^verbatim>\<open>indent\<close> and \<^verbatim>\<open>inString\<close>. \<^verbatim>\<open>indent\<close> is an \<^verbatim>\<open>int\<close> of the source and an
  unbounded integer here: it stays within 32 bits on every input shorter than \<open>2^30\<close>
  characters.
\<close>

function formatJSON_loop :: "string \<Rightarrow> nat \<Rightarrow> string \<Rightarrow> int \<Rightarrow> bool \<Rightarrow> exn + string" where
  "formatJSON_loop json i result indent inString =
     (if i < length json then
        (let c = json ! i;
             inString = (if c = dquote \<and> (i = 0 \<or> json ! (i - 1) \<noteq> backslash)
                         then \<not> inString else inString)
         in if \<not> inString then
              (if c = CHR ''{'' \<or> c = CHR ''['' then
                 (let result = result @ [c];
                      result = result @ [newline];
                      indent = indent + 1
                  in case string_fill (indent * 2) (CHR '' '') of
                       Inl e \<Rightarrow> Inl e
                     | Inr spaces \<Rightarrow> formatJSON_loop json (i + 1) (result @ spaces) indent inString)
               else if c = CHR ''}'' \<or> c = CHR '']'' then
                 (let result = result @ [newline];
                      indent = indent - 1
                  in case string_fill (indent * 2) (CHR '' '') of
                       Inl e \<Rightarrow> Inl e
                     | Inr spaces \<Rightarrow>
                         formatJSON_loop json (i + 1) ((result @ spaces) @ [c]) indent inString)
               else if c = CHR '','' then
                 (let result = result @ [c];
                      result = result @ [newline]
                  in case string_fill (indent * 2) (CHR '' '') of
                       Inl e \<Rightarrow> Inl e
                     | Inr spaces \<Rightarrow> formatJSON_loop json (i + 1) (result @ spaces) indent inString)
               else if c \<noteq> CHR '' '' \<and> c \<noteq> tab \<and> c \<noteq> newline then
                 formatJSON_loop json (i + 1) (result @ [c]) indent inString
               else formatJSON_loop json (i + 1) result indent inString)
            else formatJSON_loop json (i + 1) (result @ [c]) indent inString)
      else Inr result)"
  by pat_completeness auto
termination
  by (relation "measure (\<lambda>(json, i, result, indent, inString). length json - i)") auto

declare formatJSON_loop.simps [simp del]

definition formatJSON :: "string \<Rightarrow> exn + string" where
  "formatJSON json = formatJSON_loop json 0 [] 0 False"

definition JSONParser_parse :: "filesystem \<Rightarrow> string \<Rightarrow> exn + Document" where
  "JSONParser_parse fs filename =
     (case readFile fs filename of
        Inl e \<Rightarrow> Inl e
      | Inr text \<Rightarrow>
          (let doc = mkDocument text ''json'' in
           case formatJSON text of
             Inl e \<Rightarrow> Inl e
           | Inr formatted \<Rightarrow>
               (let doc = doc\<lparr>content := formatted\<rparr>;
                    doc = doc\<lparr>metadata := (metadata doc)(''type'' \<mapsto> ''json'')\<rparr>;
                    doc = doc\<lparr>metadata := (metadata doc)(''size'' \<mapsto> to_string (length text))\<rparr>
                in Inr doc)))"

section \<open>Regular expressions of the source\<close>

text \<open>
  The source calls \<^verbatim>\<open>std::regex_replace\<close> with seven ECMAScript patterns. Each is a
  sequence of pieces of four kinds: a single character test (\<open>One\<close>), a greedy
  repetition of a single character test with a least count (\<open>Rep 1\<close> for \<^verbatim>\<open>+\<close>,
  \<open>Rep 0\<close> for \<^verbatim>\<open>*\<close>), the same repetition in the parentheses of group 1
  (\<open>Capture\<close>), and the assertion \<^verbatim>\<open>^\<close> (\<open>Bol\<close>). A character test is a literal
  character, a negated one-character class \<^verbatim>\<open>[^c]\<close> or \<^verbatim>\<open>\s\<close>.
\<close>

datatype atom = Ch char | NotCh char | Space

fun atom_ok :: "atom \<Rightarrow> char \<Rightarrow> bool" where
  "atom_ok (Ch d) c = (c = d)"
| "atom_ok (NotCh d) c = (c \<noteq> d)"
| "atom_ok Space c = isspace c"

datatype piece = One atom | Rep nat atom | Capture nat atom | Bol

fun first_some :: "'a option list \<Rightarrow> 'a option" where
  "first_some [] = None"
| "first_some (Some x # xs) = Some x"
| "first_some (None # xs) = first_some xs"

text \<open>
  The backtracking matcher at one position: \<open>rx_match re at_begin s\<close> is the match of
  the pieces \<open>re\<close> against a prefix of \<open>s\<close>, as the text of group 1 and the number of
  characters matched. A repetition first takes the longest run and gives characters
  back one at a time until the rest of the pattern matches. \<open>at_begin\<close> says that \<open>s\<close>
  is the whole input: without the \<^verbatim>\<open>multiline\<close> flag, \<^verbatim>\<open>^\<close> matches nowhere else.
\<close>

fun rx_match :: "piece list \<Rightarrow> bool \<Rightarrow> string \<Rightarrow> (string \<times> nat) option" where
  "rx_match [] at_begin s = Some ([], 0)"
| "rx_match (Bol # re) at_begin s = (if at_begin then rx_match re at_begin s else None)"
| "rx_match (One a # re) at_begin s =
     (case s of
        [] \<Rightarrow> None
      | c # cs \<Rightarrow>
          if atom_ok a c then map_option (\<lambda>(g, n). (g, Suc n)) (rx_match re False cs)
          else None)"
| "rx_match (Rep lo a # re) at_begin s =
     first_some
       (map (\<lambda>k. map_option (\<lambda>(g, n). (g, k + n)) (rx_match re (at_begin \<and> k = 0) (drop k s)))
          (rev [lo ..< Suc (length (takeWhile (atom_ok a) s))]))"
| "rx_match (Capture lo a # re) at_begin s =
     first_some
       (map (\<lambda>k. map_option (\<lambda>(g, n). (take k s, k + n))
                    (rx_match re (at_begin \<and> k = 0) (drop k s)))
          (rev [lo ..< Suc (length (takeWhile (atom_ok a) s))]))"

text \<open>
  The alternatives a backtracking search really visits: those that fail, up to and
  with the first that succeeds.
\<close>

fun tried :: "('k \<Rightarrow> 'v option) \<Rightarrow> 'k list \<Rightarrow> 'k list" where
  "tried f [] = []"
| "tried f (k # ks) = (case f k of None \<Rightarrow> k # tried f ks | Some v \<Rightarrow> [k])"

text \<open>
  The depth the recursion of the matcher reaches in the search that \<open>rx_match\<close>
  describes. Each character matched on the way nests a further call, and the calls
  return only when the search backtracks or ends, so the depth at a point of the
  search is the number of characters matched on the way to it (\<open>depth\<close>). A repetition
  takes its whole run first, and then tries the rest of the pattern after the run,
  after one character less, and so on, until the rest matches.
\<close>

fun rx_peak :: "piece list \<Rightarrow> bool \<Rightarrow> nat \<Rightarrow> string \<Rightarrow> nat" where
  "rx_peak [] at_begin depth s = depth"
| "rx_peak (Bol # re) at_begin depth s =
     (if at_begin then rx_peak re at_begin depth s else depth)"
| "rx_peak (One a # re) at_begin depth s =
     (case s of
        [] \<Rightarrow> depth
      | c # cs \<Rightarrow> if atom_ok a c then rx_peak re False (Suc depth) cs else depth)"
| "rx_peak (Rep lo a # re) at_begin depth s =
     foldr max
       (map (\<lambda>k. rx_peak re (at_begin \<and> k = 0) (depth + k) (drop k s))
          (tried (\<lambda>k. rx_match re (at_begin \<and> k = 0) (drop k s))
             (rev [lo ..< Suc (length (takeWhile (atom_ok a) s))])))
       (depth + length (takeWhile (atom_ok a) s))"
| "rx_peak (Capture lo a # re) at_begin depth s =
     foldr max
       (map (\<lambda>k. rx_peak re (at_begin \<and> k = 0) (depth + k) (drop k s))
          (tried (\<lambda>k. rx_match re (at_begin \<and> k = 0) (drop k s))
             (rev [lo ..< Suc (length (takeWhile (atom_ok a) s))])))
       (depth + length (takeWhile (atom_ok a) s))"

text \<open>
  One run of the matcher at one position. \<open>stack\<close> is the depth of recursion, counted
  in matched characters, that the stack of the process holds; it belongs to the
  platform (the size of the stack, the library, the compiler), not to the program,
  which sets no bound on its input. A search that goes deeper kills the process.
\<close>

definition rx_exec :: "nat \<Rightarrow> piece list \<Rightarrow> bool \<Rightarrow> string \<Rightarrow> (string \<times> nat) option run" where
  "rx_exec stack re at_begin s =
     (if stack < rx_peak re at_begin 0 s then Killed else Returned (rx_match re at_begin s))"

text \<open>The replacement texts of the source: a literal text, or \<^verbatim>\<open>"$1"\<close>, group 1.\<close>

datatype replacement = Literal string | Group1

fun expand :: "replacement \<Rightarrow> string \<Rightarrow> string" where
  "expand (Literal t) g = t"
| "expand Group1 g = g"

text \<open>
  \<^verbatim>\<open>std::regex_replace(s, re, fmt)\<close>: the matches are looked for from left to right,
  each search starting where the match before ended; the text between matches is
  copied, each match is replaced by the expanded \<open>fmt\<close>. Every pattern of the source
  needs at least one character, so a match has \<open>n \<ge> 1\<close> characters, none starts at the
  end of the input, and what follows a match of \<open>c # cs\<close> is \<open>drop (n - 1) cs\<close>. The
  matcher runs anew at every position where a match is looked for; the call is killed
  as soon as one of these runs is.
\<close>

fun regex_replace_from ::
  "nat \<Rightarrow> piece list \<Rightarrow> replacement \<Rightarrow> bool \<Rightarrow> string \<Rightarrow> string run" where
  "regex_replace_from stack re fmt at_begin [] = Returned []"
| "regex_replace_from stack re fmt at_begin (c # cs) =
     (case rx_exec stack re at_begin (c # cs) of
        Killed \<Rightarrow> Killed
      | Returned (Some (g, n)) \<Rightarrow>
          (case regex_replace_from stack re fmt False (drop (n - 1) cs) of
             Killed \<Rightarrow> Killed
           | Returned rest \<Rightarrow> Returned (expand fmt g @ rest))
      | Returned None \<Rightarrow>
          (case regex_replace_from stack re fmt False cs of
             Killed \<Rightarrow> Killed
           | Returned rest \<Rightarrow> Returned (c # rest)))"

definition regex_replace :: "nat \<Rightarrow> string \<Rightarrow> piece list \<Rightarrow> replacement \<Rightarrow> string run" where
  "regex_replace stack s re fmt = regex_replace_from stack re fmt True s"

section \<open>XMLParser\<close>

definition XMLParser_canParse :: "string \<Rightarrow> bool" where
  "XMLParser_canParse filename =
     (let ext = getFileExtension filename in ext = ''xml'' \<or> ext = ''html'' \<or> ext = ''htm'')"

text \<open>The loop of \<^verbatim>\<open>extractTextFromXML\<close> with its variables \<^verbatim>\<open>result\<close> and \<^verbatim>\<open>inTag\<close>.\<close>

fun extractTextFromXML_loop :: "string \<Rightarrow> string \<Rightarrow> bool \<Rightarrow> string" where
  "extractTextFromXML_loop [] result inTag = result"
| "extractTextFromXML_loop (c # cs) result inTag =
     (if c = CHR ''<'' then extractTextFromXML_loop cs result True
      else if c = CHR ''>'' then extractTextFromXML_loop cs (result @ [CHR '' '']) False
      else if \<not> inTag then extractTextFromXML_loop cs (result @ [c]) inTag
      else extractTextFromXML_loop cs result inTag)"

text \<open>The pattern \<^verbatim>\<open>\s+\<close>.\<close>

definition multiSpace :: "piece list" where
  "multiSpace = [Rep 1 Space]"

definition extractTextFromXML :: "nat \<Rightarrow> string \<Rightarrow> string run" where
  "extractTextFromXML stack xml =
     (let result = extractTextFromXML_loop xml [] False
      in regex_replace stack result multiSpace (Literal '' ''))"

definition XMLParser_parse :: "nat \<Rightarrow> filesystem \<Rightarrow> string \<Rightarrow> (exn + Document) run" where
  "XMLParser_parse stack fs filename =
     (case readFile fs filename of
        Inl e \<Rightarrow> Returned (Inl e)
      | Inr text \<Rightarrow>
          (let ext = getFileExtension filename;
               doc = mkDocument text ext
           in case extractTextFromXML stack text of
                Killed \<Rightarrow> Killed
              | Returned textContent \<Rightarrow>
                  (let doc = doc\<lparr>content := textContent\<rparr>;
                       doc = doc\<lparr>metadata := (metadata doc)(''format'' \<mapsto> ext)\<rparr>;
                       doc = doc\<lparr>metadata := (metadata doc)(''has_tags'' \<mapsto> ''true'')\<rparr>
                   in Returned (Inr doc))))"

section \<open>MarkdownParser\<close>

definition MarkdownParser_canParse :: "string \<Rightarrow> bool" where
  "MarkdownParser_canParse filename =
     (let ext = getFileExtension filename in ext = ''md'' \<or> ext = ''markdown'')"

text \<open>
  The six patterns of \<^verbatim>\<open>convertMarkdownToText\<close>, in the order of the source:
  \<^verbatim>\<open>^#+\s*\<close>, \<^verbatim>\<open>\*\*([^*]+)\*\*\<close>, \<^verbatim>\<open>\*([^*]+)\*\<close>, \<^verbatim>\<open>\[([^\]]+)\]\([^)]+\)\<close>,
  three backticks, \<^verbatim>\<open>[^`]*\<close> and three backticks, and a backtick, \<^verbatim>\<open>([^`]+)\<close> and a
  backtick.
\<close>

definition rx_header :: "piece list" where
  "rx_header = [Bol, Rep 1 (Ch (CHR ''#'')), Rep 0 Space]"

definition rx_bold :: "piece list" where
  "rx_bold = [One (Ch (CHR ''*'')), One (Ch (CHR ''*'')), Capture 1 (NotCh (CHR ''*'')),
              One (Ch (CHR ''*'')), One (Ch (CHR ''*''))]"

definition rx_italic :: "piece list" where
  "rx_italic = [One (Ch (CHR ''*'')), Capture 1 (NotCh (CHR ''*'')), One (Ch (CHR ''*''))]"

definition rx_link :: "piece list" where
  "rx_link = [One (Ch (CHR ''['')), Capture 1 (NotCh (CHR '']'')), One (Ch (CHR '']'')),
              One (Ch (CHR ''('')), Rep 1 (NotCh (CHR '')'')), One (Ch (CHR '')''))]"

definition rx_fence :: "piece list" where
  "rx_fence = [One (Ch backtick), One (Ch backtick), One (Ch backtick), Rep 0 (NotCh backtick),
               One (Ch backtick), One (Ch backtick), One (Ch backtick)]"

definition rx_code :: "piece list" where
  "rx_code = [One (Ch backtick), Capture 1 (NotCh backtick), One (Ch backtick)]"

text \<open>One assignment \<^verbatim>\<open>result = std::regex_replace(result, re, fmt)\<close> after the others.\<close>

definition then_replace :: "nat \<Rightarrow> piece list \<Rightarrow> replacement \<Rightarrow> string run \<Rightarrow> string run" where
  "then_replace stack re fmt r =
     (case r of Killed \<Rightarrow> Killed | Returned result \<Rightarrow> regex_replace stack result re fmt)"

definition convertMarkdownToText :: "nat \<Rightarrow> string \<Rightarrow> string run" where
  "convertMarkdownToText stack md =
     (let result = Returned md;
          result = then_replace stack rx_header (Literal []) result;
          result = then_replace stack rx_bold Group1 result;
          result = then_replace stack rx_italic Group1 result;
          result = then_replace stack rx_link Group1 result;
          result = then_replace stack rx_fence (Literal []) result;
          result = then_replace stack rx_code Group1 result
      in result)"

definition MarkdownParser_parse :: "nat \<Rightarrow> filesystem \<Rightarrow> string \<Rightarrow> (exn + Document) run" where
  "MarkdownParser_parse stack fs filename =
     (case readFile fs filename of
        Inl e \<Rightarrow> Returned (Inl e)
      | Inr text \<Rightarrow>
          (let doc = mkDocument text ''markdown'' in
           case convertMarkdownToText stack text of
             Killed \<Rightarrow> Killed
           | Returned converted \<Rightarrow>
               (let doc = doc\<lparr>content := converted\<rparr>;
                    doc = doc\<lparr>metadata := (metadata doc)(''format'' \<mapsto> ''markdown'')\<rparr>
                in Returned (Inr doc))))"

section \<open>UniversalDocumentParser\<close>

text \<open>
  The five parser classes, and the virtual calls on them. A \<^verbatim>\<open>parse\<close> without a
  regular expression always returns.
\<close>

datatype parser = TextParser | CSVParser | JSONParser | XMLParser | MarkdownParser

fun canParse :: "parser \<Rightarrow> string \<Rightarrow> bool" where
  "canParse TextParser = TextParser_canParse"
| "canParse CSVParser = CSVParser_canParse"
| "canParse JSONParser = JSONParser_canParse"
| "canParse XMLParser = XMLParser_canParse"
| "canParse MarkdownParser = MarkdownParser_canParse"

fun parse :: "nat \<Rightarrow> parser \<Rightarrow> filesystem \<Rightarrow> string \<Rightarrow> (exn + Document) run" where
  "parse stack TextParser fs filename = Returned (TextParser_parse fs filename)"
| "parse stack CSVParser fs filename = Returned (CSVParser_parse fs filename)"
| "parse stack JSONParser fs filename = Returned (JSONParser_parse fs filename)"
| "parse stack XMLParser fs filename = XMLParser_parse stack fs filename"
| "parse stack MarkdownParser fs filename = MarkdownParser_parse stack fs filename"

fun getFormatName :: "parser \<Rightarrow> string" where
  "getFormatName TextParser = ''Plain Text''"
| "getFormatName CSVParser = ''CSV''"
| "getFormatName JSONParser = ''JSON''"
| "getFormatName XMLParser = ''XML/HTML''"
| "getFormatName MarkdownParser = ''Markdown''"

text \<open>The member \<^verbatim>\<open>parsers\<close>, as the constructor fills it.\<close>

definition parsers :: "parser list" where
  "parsers = [TextParser, CSVParser, JSONParser, XMLParser, MarkdownParser]"

text \<open>
  The loop of \<^verbatim>\<open>parseDocument\<close> over the parsers left: the first parser that can
  parse the file name parses it; an exception of its \<^verbatim>\<open>parse\<close> is caught and thrown
  again inside \<open>FailedToParse\<close>; after the loop \<open>NoSuitableParser\<close> is thrown. When the
  process is killed inside \<^verbatim>\<open>parse\<close>, nothing is caught and nothing returns.
\<close>

fun parseDocument_loop ::
  "nat \<Rightarrow> parser list \<Rightarrow> filesystem \<Rightarrow> string \<Rightarrow> (exn + Document) run" where
  "parseDocument_loop stack [] fs filename = Returned (Inl (NoSuitableParser filename))"
| "parseDocument_loop stack (p # ps) fs filename =
     (if canParse p filename then
        (case parse stack p fs filename of
           Killed \<Rightarrow> Killed
         | Returned (Inr doc) \<Rightarrow>
             (let doc = doc\<lparr>metadata := (metadata doc)(''parser'' \<mapsto> getFormatName p)\<rparr>;
                  doc = doc\<lparr>metadata := (metadata doc)(''filename'' \<mapsto> filename)\<rparr>
              in Returned (Inr doc))
         | Returned (Inl e) \<Rightarrow> Returned (Inl (FailedToParse filename e)))
      else parseDocument_loop stack ps fs filename)"

definition parseDocument :: "nat \<Rightarrow> filesystem \<Rightarrow> string \<Rightarrow> (exn + Document) run" where
  "parseDocument stack fs filename = parseDocument_loop stack parsers fs filename"

definition getSupportedFormats :: "string list" where
  "getSupportedFormats = map getFormatName parsers"

fun canParseFile_loop :: "parser list \<Rightarrow> string \<Rightarrow> bool" where
  "canParseFile_loop [] filename = False"
| "canParseFile_loop (p # ps) filename =
     (if canParse p filename then True else canParseFile_loop ps filename)"

definition canParseFile :: "string \<Rightarrow> bool" where
  "canParseFile filename = canParseFile_loop parsers filename"

section \<open>The Python binding\<close>

text \<open>
  \<^verbatim>\<open>PyDocumentParser::parse_text_content\<close> builds a Document and returns its four
  members in a \<^verbatim>\<open>py::dict\<close> under the keys \<^verbatim>\<open>content\<close>, \<^verbatim>\<open>format\<close>, \<^verbatim>\<open>metadata\<close> and
  \<^verbatim>\<open>pages\<close>: a record of the four values.
\<close>

record py_dict =
  py_content :: string
  py_format :: string
  py_metadata :: "string \<rightharpoonup> string"
  py_pages :: "string list"

definition to_py_dict :: "Document \<Rightarrow> py_dict" where
  "to_py_dict doc =
     \<lparr>py_content = content doc, py_format = format doc,
      py_metadata = metadata doc, py_pages = pages doc\<rparr>"

definition parse_text_content :: "string \<Rightarrow> string \<Rightarrow> py_dict" where
  "parse_text_content text fmt =
     (let doc = mkDocument text fmt;
          doc = doc\<lparr>metadata := (metadata doc)(''type'' \<mapsto> ''direct_content'')\<rparr>
      in to_py_dict doc)"

definition parse_document :: "nat \<Rightarrow> filesystem \<Rightarrow> string \<Rightarrow> (exn + py_dict) run" where
  "parse_document stack fs filename =
     (case parseDocument stack fs filename of
        Killed \<Rightarrow> Killed
      | Returned (Inr doc) \<Rightarrow> Returned (Inr (to_py_dict doc))
      | Returned (Inl e) \<Rightarrow> Returned (Inl e))"

section \<open>Definitions used to state the properties\<close>

text \<open>
  The parser the loop of \<^verbatim>\<open>parseDocument\<close> (and of \<^verbatim>\<open>canParseFile\<close>) stops at: the first
  of \<open>parsers\<close> whose \<^verbatim>\<open>canParse\<close> accepts the file name.
\<close>

definition detect :: "string \<Rightarrow> parser option" where
  "detect filename = find (\<lambda>p. canParse p filename) parsers"

text \<open>The number a string of decimal digits stands for.\<close>

definition decimal_value :: "string \<Rightarrow> nat" where
  "decimal_value s = foldl (\<lambda>v c. 10 * v + (of_char c - 48)) 0 s"

text \<open>
  The inputs of the worked examples: the two-line table \<^verbatim>\<open>a,b,"c,d"\<close>, \<^verbatim>\<open>1,2,3\<close>, and
  the line \<^verbatim>\<open>"x,y",z""\<close>.
\<close>

definition csv_example :: string where
  "csv_example = ''a,b,'' @ [dquote] @ ''c,d'' @ [dquote, newline] @ ''1,2,3''"

definition quoted_line :: string where
  "quoted_line = [dquote] @ ''x,y'' @ [dquote] @ '',z'' @ [dquote, dquote]"

subsection \<open>The tag stripper and the whitespace normalisation, in the words of the specification\<close>

text \<open>
  The scan with a tag state: \<^verbatim>\<open><\<close> enters the tag state and is dropped, \<^verbatim>\<open>>\<close> leaves it
  and gives one space, a character outside the tag state is kept, a character inside
  it is dropped.
\<close>

fun strip_tags :: "bool \<Rightarrow> string \<Rightarrow> string" where
  "strip_tags in_tag [] = []"
| "strip_tags in_tag (c # cs) =
     (if c = CHR ''<'' then strip_tags True cs
      else if c = CHR ''>'' then CHR '' '' # strip_tags False cs
      else if in_tag then strip_tags True cs
      else c # strip_tags False cs)"

text \<open>
  Every maximal run of whitespace characters becomes one space: at a whitespace
  character one space is written and the whole run is skipped.
\<close>

function collapse_whitespace :: "string \<Rightarrow> string" where
  "collapse_whitespace [] = []"
| "collapse_whitespace (c # cs) =
     (if isspace c then CHR '' '' # collapse_whitespace (dropWhile isspace cs)
      else c # collapse_whitespace cs)"
  by pat_completeness auto
termination
  by (relation "measure length") (auto simp: length_dropWhile_le le_imp_less_Suc)

subsection \<open>The Markdown substitutions, in the words of the specification\<close>

text \<open>The pattern of a literal text: one piece for each of its characters.\<close>

definition lits :: "string \<Rightarrow> piece list" where
  "lits t = map (\<lambda>d. One (Ch d)) t"

text \<open>
  \<open>wrapped lo opening stop closing s\<close>: the text \<open>s\<close> starts with \<open>opening\<close>, then comes
  the body, the characters up to the first \<open>stop\<close>, at least \<open>lo\<close> of them, then
  \<open>closing\<close>. The result is the body and the length of the three parts together.
\<close>

definition wrapped :: "nat \<Rightarrow> string \<Rightarrow> char \<Rightarrow> string \<Rightarrow> string \<Rightarrow> (string \<times> nat) option" where
  "wrapped lo opening stop closing s =
     (let body = takeWhile (\<lambda>c. c \<noteq> stop) (drop (length opening) s);
          rest = drop (length opening + length body) s
      in if take (length opening) s = opening \<and> lo \<le> length body \<and>
            take (length closing) rest = closing
         then Some (body, length opening + length body + length closing)
         else None)"

text \<open>
  Step 1: a run of \<^verbatim>\<open>#\<close> at the very start of the content goes, with the whitespace
  after it; a content that does not start with \<^verbatim>\<open>#\<close> stays as it is.
\<close>

definition strip_leading_header :: "string \<Rightarrow> string" where
  "strip_leading_header s =
     (case s of
        [] \<Rightarrow> []
      | c # cs \<Rightarrow>
          if c = CHR ''#'' then dropWhile isspace (dropWhile (\<lambda>x. x = CHR ''#'') cs) else s)"

text \<open>
  Steps 2 to 6 replace every occurrence of a form, from left to right and without
  overlap: \<open>m s\<close> says whether the form stands at the start of \<open>s\<close>, what replaces it
  and how many characters (at least one) it takes.
\<close>

fun replace_all :: "(string \<Rightarrow> (string \<times> nat) option) \<Rightarrow> string \<Rightarrow> string" where
  "replace_all m [] = []"
| "replace_all m (c # cs) =
     (case m (c # cs) of
        Some (out, n) \<Rightarrow> out @ replace_all m (drop (n - 1) cs)
      | None \<Rightarrow> c # replace_all m cs)"

text \<open>
  The five forms: \<^verbatim>\<open>**X**\<close> and \<^verbatim>\<open>*X*\<close> with a non-empty \<open>X\<close> free of \<^verbatim>\<open>*\<close>, both
  replaced by \<open>X\<close>; \<^verbatim>\<open>[X](Y)\<close> with a non-empty \<open>X\<close> free of \<^verbatim>\<open>]\<close> and a non-empty \<open>Y\<close>
  free of \<^verbatim>\<open>)\<close>, replaced by \<open>X\<close>; a block between two triple backticks with no
  backtick inside, replaced by nothing; and \<open>X\<close> between two backticks, non-empty and
  free of backticks, replaced by \<open>X\<close>.
\<close>

definition bold_at :: "string \<Rightarrow> (string \<times> nat) option" where
  "bold_at s = wrapped 1 ''**'' (CHR ''*'') ''**'' s"

definition italic_at :: "string \<Rightarrow> (string \<times> nat) option" where
  "italic_at s = wrapped 1 ''*'' (CHR ''*'') ''*'' s"

definition link_at :: "string \<Rightarrow> (string \<times> nat) option" where
  "link_at s =
     (case wrapped 1 ''['' (CHR '']'') '']('' s of
        None \<Rightarrow> None
      | Some (label, n) \<Rightarrow>
          (case wrapped 1 [] (CHR '')'') '')'' (drop n s) of
             None \<Rightarrow> None
           | Some (target, k) \<Rightarrow> Some (label, n + k)))"

definition fence_at :: "string \<Rightarrow> (string \<times> nat) option" where
  "fence_at s =
     (case wrapped 0 [backtick, backtick, backtick] backtick [backtick, backtick, backtick] s of
        None \<Rightarrow> None
      | Some (body, n) \<Rightarrow> Some ([], n))"

definition code_at :: "string \<Rightarrow> (string \<times> nat) option" where
  "code_at s = wrapped 1 [backtick] backtick [backtick] s"

text \<open>
  The Markdown example: the line \<^verbatim>\<open># Title\<close>, then
  \<^verbatim>\<open>**bold** and *em* and [link](url) and `code`\<close>.
\<close>

definition md_example :: string where
  "md_example = ''# Title'' @ [newline] @ ''**bold** and *em* and [link](url) and ''
                 @ [backtick] @ ''code'' @ [backtick]"

section \<open>Decimal rendering\<close>

lemma decimal_value_snoc:
  "decimal_value (s @ [c]) = 10 * decimal_value s + (of_char c - 48)"
  by (simp add: decimal_value_def)

lemma of_char_digit_char: "d < 10 \<Longrightarrow> (of_char (digit_char d) :: nat) = 48 + d"
  by (simp add: digit_char_def)

lemma decimal_value_to_string: "decimal_value (to_string n) = n"
proof (induction n rule: to_string.induct)
  case (1 n)
  show ?case
  proof (cases "n < 10")
    case True
    then show ?thesis
      by (simp add: to_string.simps [of n] decimal_value_def of_char_digit_char)
  next
    case False
    with "1" have "decimal_value (to_string (n div 10)) = n div 10" by simp
    with False show ?thesis
      by (simp add: to_string.simps [of n] decimal_value_snoc of_char_digit_char)
  qed
qed

lemma to_string_digits:
  "\<forall>c \<in> set (to_string n). 48 \<le> (of_char c :: nat) \<and> (of_char c :: nat) \<le> 57"
proof (induction n rule: to_string.induct)
  case (1 n)
  show ?case
  proof (cases "n < 10")
    case True
    then show ?thesis
      by (simp add: to_string.simps [of n] of_char_digit_char)
  next
    case False
    with "1" have "\<forall>c \<in> set (to_string (n div 10)).
        48 \<le> (of_char c :: nat) \<and> (of_char c :: nat) \<le> 57"
      by simp
    with False show ?thesis
      by (simp add: to_string.simps [of n] of_char_digit_char)
  qed
qed

lemma to_string_1: "to_string (Suc 0) = ''1''"
  by code_simp

lemma to_string_2: "to_string (Suc (Suc 0)) = ''2''"
  by code_simp

lemma to_string_3: "to_string (Suc (Suc (Suc 0))) = ''3''"
  by code_simp

section \<open>PlainText\<close>

lemma TextParser_parse_Some:
  "fs filename = Some text \<Longrightarrow>
   TextParser_parse fs filename =
     Inr \<lparr>content = text,
          metadata = [''encoding'' \<mapsto> ''utf-8'',
                      ''lines'' \<mapsto> to_string (count_char text newline + 1)],
          format = ''text'', pages = []\<rparr>"
  by (simp add: TextParser_parse_def readFile_def mkDocument_def Let_def)

text \<open>
  C7: whatever the file holds, \<^verbatim>\<open>TextParser::parse\<close> returns it unchanged as the
  content, with \<open>encoding\<close> set to \<open>utf-8\<close> and \<open>lines\<close> set to the decimal digits of
  the number of newline characters plus one (a string of digits, codes 48 to 57, whose
  decimal value is that number).
\<close>

theorem TextParser_parse_passthrough:
  assumes "fs filename = Some text"
  shows "\<exists>doc. TextParser_parse fs filename = Inr doc \<and> content doc = text \<and>
           metadata doc ''encoding'' = Some ''utf-8'' \<and>
           metadata doc ''lines'' = Some (to_string (count_char text newline + 1)) \<and>
           decimal_value (to_string (count_char text newline + 1)) = count_char text newline + 1 \<and>
           (\<forall>c \<in> set (to_string (count_char text newline + 1)).
              48 \<le> (of_char c :: nat) \<and> (of_char c :: nat) \<le> 57)"
  using assms to_string_digits [of "count_char text newline + 1"]
  by (simp add: TextParser_parse_Some decimal_value_to_string)

text \<open>The empty file has \<open>lines = "1"\<close>, the file \<^verbatim>\<open>a\nb\n\<close> has \<open>lines = "3"\<close>.\<close>

theorem TextParser_parse_passthrough_witness:
  "(\<exists>doc. TextParser_parse [''empty.txt'' \<mapsto> []] ''empty.txt'' = Inr doc \<and> content doc = [] \<and>
      metadata doc ''encoding'' = Some ''utf-8'' \<and> metadata doc ''lines'' = Some ''1'') \<and>
   (\<exists>doc. TextParser_parse [''ab.txt'' \<mapsto> [CHR ''a'', newline, CHR ''b'', newline]] ''ab.txt''
             = Inr doc \<and>
      content doc = [CHR ''a'', newline, CHR ''b'', newline] \<and>
      metadata doc ''encoding'' = Some ''utf-8'' \<and> metadata doc ''lines'' = Some ''3'')"
  using TextParser_parse_passthrough [of "[''empty.txt'' \<mapsto> []]" "''empty.txt''" "[]"]
    TextParser_parse_passthrough [of "[''ab.txt'' \<mapsto> [CHR ''a'', newline, CHR ''b'', newline]]"
      "''ab.txt''" "[CHR ''a'', newline, CHR ''b'', newline]"]
  by (auto simp: count_char_def to_string_1 to_string_3)

section \<open>Tabular\<close>

lemma parseCSVLine_loop_no_quote:
  "\<forall>f \<in> set flds. dquote \<notin> set f \<Longrightarrow> dquote \<notin> set field \<Longrightarrow>
   \<forall>f \<in> set (parseCSVLine_loop line flds field inQuotes). dquote \<notin> set f"
  by (induction line flds field inQuotes rule: parseCSVLine_loop.induct) auto

lemma parseCSVLine_no_quote: "\<forall>f \<in> set (parseCSVLine line). dquote \<notin> set f"
  using parseCSVLine_loop_no_quote [of "[]" "[]" line False] by (simp add: parseCSVLine_def)

lemma parseCSV_no_quote: "\<forall>row \<in> set (parseCSV text). \<forall>f \<in> set row. dquote \<notin> set f"
  by (simp add: parseCSV_def parseCSVLine_no_quote)

lemma format_row_no_quote:
  "\<forall>f \<in> set row. dquote \<notin> set f \<Longrightarrow> dquote \<notin> set (format_row i row)"
  by (induction i row rule: format_row.induct) auto

lemma format_rows_no_quote:
  "\<forall>row \<in> set rows. \<forall>f \<in> set row. dquote \<notin> set f \<Longrightarrow> dquote \<notin> set (format_rows rows)"
  by (induction rows) (auto simp: format_row_no_quote)

lemma CSVParser_parse_Some:
  "fs filename = Some text \<Longrightarrow>
   CSVParser_parse fs filename =
     Inr \<lparr>content = format_rows (parseCSV text),
          metadata = (if parseCSV text \<noteq> []
                      then [''rows'' \<mapsto> to_string (length (parseCSV text)),
                            ''columns'' \<mapsto> to_string (length (parseCSV text ! 0))]
                      else [''rows'' \<mapsto> to_string (length (parseCSV text))]),
          format = ''csv'', pages = []\<rparr>"
  by (simp add: CSVParser_parse_def readFile_def mkDocument_def Let_def)

lemma parseCSV_example: "parseCSV csv_example = [[''a'', ''b'', ''c,d''], [''1'', ''2'', ''3'']]"
  by (simp add: csv_example_def parseCSV_def parseCSVLine_def)

text \<open>
  C2: on the file \<^verbatim>\<open>a,b,"c,d"\<close>, \<^verbatim>\<open>1,2,3\<close> the CSV parser finds two rows, the first
  with the three fields \<open>a\<close>, \<open>b\<close> and \<open>c,d\<close> (the comma between the quotes does not
  split), sets \<open>rows\<close> to \<open>2\<close> and \<open>columns\<close> to \<open>3\<close>, and its content is the rows with
  their fields joined by \<open>" | "\<close>, a newline after each row.
\<close>

theorem CSVParser_parse_example:
  assumes "fs filename = Some csv_example"
  shows "parseCSV csv_example = [[''a'', ''b'', ''c,d''], [''1'', ''2'', ''3'']] \<and>
         (\<exists>doc. CSVParser_parse fs filename = Inr doc \<and>
            metadata doc ''rows'' = Some ''2'' \<and> metadata doc ''columns'' = Some ''3'' \<and>
            content doc = ''a | b | c,d'' @ [newline] @ ''1 | 2 | 3'' @ [newline])"
  using assms by (simp add: CSVParser_parse_Some parseCSV_example to_string_2 to_string_3)

theorem CSVParser_parse_example_witness:
  "\<exists>doc. CSVParser_parse [''t.csv'' \<mapsto> csv_example] ''t.csv'' = Inr doc \<and>
     metadata doc ''rows'' = Some ''2'' \<and> metadata doc ''columns'' = Some ''3'' \<and>
     content doc = ''a | b | c,d'' @ [newline] @ ''1 | 2 | 3'' @ [newline]"
  using CSVParser_parse_example [of "[''t.csv'' \<mapsto> csv_example]" "''t.csv''"]
  by auto

text \<open>
  C10: no field that \<^verbatim>\<open>parseCSVLine\<close> returns holds a double quote, so none stands
  in a row of \<^verbatim>\<open>parseCSV\<close> or in the content the CSV parser builds; a doubled quote
  between quotes adds nothing to the field.
\<close>

theorem parseCSVLine_never_keeps_quote:
  "(\<forall>f \<in> set (parseCSVLine line). dquote \<notin> set f) \<and>
   (\<forall>row \<in> set (parseCSV text). \<forall>f \<in> set row. dquote \<notin> set f) \<and>
   (\<forall>doc. fs filename = Some text \<and> CSVParser_parse fs filename = Inr doc
      \<longrightarrow> dquote \<notin> set (content doc)) \<and>
   parseCSVLine ([dquote] @ ''a'' @ [dquote, dquote] @ ''b'' @ [dquote]) = [''ab'']"
proof (intro conjI allI impI)
  show "\<forall>f \<in> set (parseCSVLine line). dquote \<notin> set f"
    by (rule parseCSVLine_no_quote)
  show "\<forall>row \<in> set (parseCSV text). \<forall>f \<in> set row. dquote \<notin> set f"
    by (rule parseCSV_no_quote)
  show "parseCSVLine ([dquote] @ ''a'' @ [dquote, dquote] @ ''b'' @ [dquote]) = [''ab'']"
    by (simp add: parseCSVLine_def)
next
  fix doc
  assume "fs filename = Some text \<and> CSVParser_parse fs filename = Inr doc"
  then have "content doc = format_rows (parseCSV text)"
    by (auto simp: CSVParser_parse_Some)
  then show "dquote \<notin> set (content doc)"
    by (simp add: format_rows_no_quote parseCSV_no_quote)
qed

theorem parseCSVLine_never_keeps_quote_witness:
  "parseCSVLine quoted_line = [''x,y'', ''z''] \<and>
   dquote \<in> set quoted_line \<and> dquote \<notin> set ''x,y'' \<and> dquote \<notin> set ''z'' \<and>
   (\<exists>doc. CSVParser_parse [''q.csv'' \<mapsto> quoted_line] ''q.csv'' = Inr doc \<and>
      content doc = ''x,y | z'' @ [newline] \<and> dquote \<notin> set (content doc))"
  using parseCSVLine_never_keeps_quote
    [of quoted_line quoted_line "[''q.csv'' \<mapsto> quoted_line]" "''q.csv''"]
  by (auto simp: quoted_line_def parseCSVLine_def parseCSV_def CSVParser_parse_Some)

section \<open>Detection\<close>

lemma parseDocument_loop_find:
  "parseDocument_loop stack ps fs filename =
     (case find (\<lambda>p. canParse p filename) ps of
        None \<Rightarrow> Returned (Inl (NoSuitableParser filename))
      | Some p \<Rightarrow>
          (case parse stack p fs filename of
             Killed \<Rightarrow> Killed
           | Returned (Inr doc) \<Rightarrow>
               Returned (Inr (doc\<lparr>metadata := (metadata doc)(''parser'' \<mapsto> getFormatName p,
                                                               ''filename'' \<mapsto> filename)\<rparr>))
           | Returned (Inl e) \<Rightarrow> Returned (Inl (FailedToParse filename e))))"
  by (induction ps) (simp_all add: Let_def split: run.splits sum.splits)

lemma canParseFile_loop_find:
  "canParseFile_loop ps filename \<longleftrightarrow> find (\<lambda>p. canParse p filename) ps \<noteq> None"
  by (induction ps) simp_all

lemma parseDocument_detect:
  "parseDocument stack fs filename =
     (case detect filename of
        None \<Rightarrow> Returned (Inl (NoSuitableParser filename))
      | Some p \<Rightarrow>
          (case parse stack p fs filename of
             Killed \<Rightarrow> Killed
           | Returned (Inr doc) \<Rightarrow>
               Returned (Inr (doc\<lparr>metadata := (metadata doc)(''parser'' \<mapsto> getFormatName p,
                                                               ''filename'' \<mapsto> filename)\<rparr>))
           | Returned (Inl e) \<Rightarrow> Returned (Inl (FailedToParse filename e))))"
  by (simp add: parseDocument_def detect_def parseDocument_loop_find)

lemma canParseFile_detect: "canParseFile filename \<longleftrightarrow> detect filename \<noteq> None"
  by (simp add: canParseFile_def detect_def canParseFile_loop_find)

lemma detect_cases:
  "detect filename =
     (let ext = getFileExtension filename in
      if ext = ''txt'' \<or> ext = ''text'' then Some TextParser
      else if ext = ''csv'' then Some CSVParser
      else if ext = ''json'' then Some JSONParser
      else if ext = ''xml'' \<or> ext = ''html'' \<or> ext = ''htm'' then Some XMLParser
      else if ext = ''md'' \<or> ext = ''markdown'' then Some MarkdownParser
      else None)"
  by (simp add: detect_def parsers_def TextParser_canParse_def CSVParser_canParse_def
      JSONParser_canParse_def XMLParser_canParse_def MarkdownParser_canParse_def Let_def)

lemma find_last_of_None: "find_last_of s c = None \<longleftrightarrow> c \<notin> set s"
  by (induction s) (auto split: option.splits)

lemma find_last_of_append:
  "c \<notin> set suf \<Longrightarrow> find_last_of (pre @ c # suf) c = Some (length pre)"
  by (induction pre) (auto simp: find_last_of_None split: option.splits)

lemma getFileExtension_no_dot: "CHR ''.'' \<notin> set filename \<Longrightarrow> getFileExtension filename = []"
  using find_last_of_None [of filename "CHR ''.''"] by (simp add: getFileExtension_def)

lemma getFileExtension_last_dot:
  "CHR ''.'' \<notin> set suf \<Longrightarrow> getFileExtension (pre @ CHR ''.'' # suf) = map tolower suf"
  by (simp add: getFileExtension_def find_last_of_append toLowerCase_def)

lemma of_char_tolower:
  "(of_char (tolower c) :: nat) =
     (if 65 \<le> (of_char c :: nat) \<and> (of_char c :: nat) \<le> 90 then of_char c + 32 else of_char c)"
  by (simp add: tolower_def Let_def)

lemma tolower_dot: "tolower c = CHR ''.'' \<longleftrightarrow> c = CHR ''.''"
proof -
  have "tolower c = CHR ''.'' \<longleftrightarrow> (of_char (tolower c) :: nat) = of_char (CHR ''.'')"
    by (simp only: of_char_eq_iff)
  also have "\<dots> \<longleftrightarrow> (of_char c :: nat) = of_char (CHR ''.'')"
    by (simp add: of_char_tolower)
  also have "\<dots> \<longleftrightarrow> c = CHR ''.''"
    by (simp only: of_char_eq_iff)
  finally show ?thesis .
qed

lemma tolower_idem: "tolower (tolower c) = tolower c"
proof -
  have "(of_char (tolower (tolower c)) :: nat) = of_char (tolower c)"
    by (simp add: of_char_tolower)
  then show ?thesis by (simp only: of_char_eq_iff)
qed

lemma find_last_of_map_tolower:
  "find_last_of (map tolower s) (CHR ''.'') = find_last_of s (CHR ''.'')"
  by (induction s) (auto simp: tolower_dot split: option.splits)

lemma getFileExtension_map_tolower:
  "getFileExtension (map tolower filename) = getFileExtension filename"
  by (simp add: getFileExtension_def find_last_of_map_tolower toLowerCase_def drop_map tolower_idem
      split: option.splits)

lemma getFileExtension_case_insensitive:
  assumes "map tolower f = map tolower g"
  shows "getFileExtension f = getFileExtension g"
  using getFileExtension_map_tolower [of f] getFileExtension_map_tolower [of g] assms by simp

text \<open>
  C4: the extension is what follows the last dot, in lower case, and empty when the
  name has no dot; each parser is chosen exactly on its own extensions, two names that
  differ only in case choose alike, and \<^verbatim>\<open>canParseFile\<close> holds exactly on the nine
  extensions.
\<close>

theorem detect_by_lowercased_extension:
  "(CHR ''.'' \<notin> set filename \<longrightarrow> getFileExtension filename = []) \<and>
   (CHR ''.'' \<notin> set suf \<longrightarrow> getFileExtension (pre @ CHR ''.'' # suf) = map tolower suf) \<and>
   (detect filename = Some TextParser \<longleftrightarrow> getFileExtension filename \<in> {''txt'', ''text''}) \<and>
   (detect filename = Some CSVParser \<longleftrightarrow> getFileExtension filename = ''csv'') \<and>
   (detect filename = Some JSONParser \<longleftrightarrow> getFileExtension filename = ''json'') \<and>
   (detect filename = Some XMLParser \<longleftrightarrow> getFileExtension filename \<in> {''xml'', ''html'', ''htm''}) \<and>
   (detect filename = Some MarkdownParser \<longleftrightarrow> getFileExtension filename \<in> {''md'', ''markdown''}) \<and>
   (canParseFile filename \<longleftrightarrow>
      getFileExtension filename \<in>
        {''txt'', ''text'', ''csv'', ''json'', ''xml'', ''html'', ''htm'', ''md'', ''markdown''}) \<and>
   (map tolower filename = map tolower other \<longrightarrow> detect filename = detect other) \<and>
   detect ''A.CSV'' = Some CSVParser \<and> detect ''a.csv'' = Some CSVParser"
proof (intro conjI impI)
  show "detect ''A.CSV'' = Some CSVParser"
    by code_simp
  show "detect ''a.csv'' = Some CSVParser"
    by code_simp
  show "canParseFile filename \<longleftrightarrow>
      getFileExtension filename \<in>
        {''txt'', ''text'', ''csv'', ''json'', ''xml'', ''html'', ''htm'', ''md'', ''markdown''}"
    by (simp add: canParseFile_detect detect_cases Let_def)
next
  assume "map tolower filename = map tolower other"
  then have "getFileExtension filename = getFileExtension other"
    by (rule getFileExtension_case_insensitive)
  then show "detect filename = detect other"
    by (simp add: detect_cases)
qed (simp_all add: getFileExtension_no_dot getFileExtension_last_dot detect_cases Let_def)

theorem detect_by_lowercased_extension_witness:
  "getFileExtension ''README'' = [] \<and>
   getFileExtension ''notes.v2.TXT'' = ''txt'' \<and>
   detect ''notes.v2.TXT'' = Some TextParser \<and> canParseFile ''notes.v2.TXT'' \<and>
   detect ''Page.HTML'' = detect ''page.html''"
proof -
  note T1 = detect_by_lowercased_extension [of "''README''" "''TXT''" "''notes.v2''" "''readme''"]
  note T2 = detect_by_lowercased_extension
    [of "''notes.v2.TXT''" "''TXT''" "''notes.v2''" "''notes.v2.txt''"]
  note T3 = detect_by_lowercased_extension [of "''Page.HTML''" "''HTML''" "''Page''" "''page.html''"]
  have no_dot: "CHR ''.'' \<notin> set ''README''" "CHR ''.'' \<notin> set ''TXT''"
    by simp_all
  have lower: "map tolower ''TXT'' = ''txt''" "map tolower ''Page.HTML'' = map tolower ''page.html''"
    by code_simp+
  have a: "getFileExtension ''README'' = []"
    using T1 no_dot by blast
  have "getFileExtension (''notes.v2'' @ CHR ''.'' # ''TXT'') = map tolower ''TXT''"
    using T2 no_dot by blast
  then have b: "getFileExtension ''notes.v2.TXT'' = ''txt''"
    using lower by simp
  have c: "detect ''notes.v2.TXT'' = Some TextParser"
    using T2 b by blast
  have d: "canParseFile ''notes.v2.TXT''"
    using T2 b by blast
  have e: "detect ''Page.HTML'' = detect ''page.html''"
    using T3 lower by blast
  from a b c d e show ?thesis by blast
qed

section \<open>parseDocument\<close>

text \<open>
  C8: a file name whose extension is none of the nine makes \<^verbatim>\<open>parseDocument\<close> throw
  the error that no parser suits the file name, which the error carries; no Document
  is returned.
\<close>

theorem parseDocument_no_parser:
  assumes "getFileExtension filename \<notin>
             {''txt'', ''text'', ''csv'', ''json'', ''xml'', ''html'', ''htm'', ''md'', ''markdown''}"
  shows "parseDocument stack fs filename = Returned (Inl (NoSuitableParser filename)) \<and>
         parse_document stack fs filename = Returned (Inl (NoSuitableParser filename)) \<and>
         \<not> canParseFile filename"
  using assms by (simp add: parse_document_def parseDocument_detect canParseFile_detect detect_cases)

theorem parseDocument_no_parser_witness:
  "getFileExtension ''file.unknownext'' = ''unknownext'' \<and>
   parseDocument 1000 [''file.unknownext'' \<mapsto> ''text''] ''file.unknownext''
     = Returned (Inl (NoSuitableParser ''file.unknownext''))"
proof -
  have ext: "getFileExtension ''file.unknownext'' = ''unknownext''"
    by code_simp
  then show ?thesis
    using parseDocument_no_parser
      [of "''file.unknownext''" 1000 "[''file.unknownext'' \<mapsto> ''text'']"]
    by simp
qed

lemma JSONParser_parse_Some:
  "fs filename = Some text \<Longrightarrow>
   JSONParser_parse fs filename =
     (case formatJSON text of
        Inl e \<Rightarrow> Inl e
      | Inr formatted \<Rightarrow>
          Inr \<lparr>content = formatted,
               metadata = [''type'' \<mapsto> ''json'', ''size'' \<mapsto> to_string (length text)],
               format = ''json'', pages = []\<rparr>)"
  by (simp add: JSONParser_parse_def readFile_def mkDocument_def Let_def split: sum.splits)

lemma XMLParser_parse_Some:
  "fs filename = Some text \<Longrightarrow>
   XMLParser_parse stack fs filename =
     (case extractTextFromXML stack text of
        Killed \<Rightarrow> Killed
      | Returned textContent \<Rightarrow>
          Returned (Inr \<lparr>content = textContent,
                         metadata = [''format'' \<mapsto> getFileExtension filename,
                                     ''has_tags'' \<mapsto> ''true''],
                         format = getFileExtension filename, pages = []\<rparr>))"
  by (simp add: XMLParser_parse_def readFile_def mkDocument_def Let_def split: run.splits)

lemma MarkdownParser_parse_Some:
  "fs filename = Some text \<Longrightarrow>
   MarkdownParser_parse stack fs filename =
     (case convertMarkdownToText stack text of
        Killed \<Rightarrow> Killed
      | Returned converted \<Rightarrow>
          Returned (Inr \<lparr>content = converted,
                         metadata = [''format'' \<mapsto> ''markdown''],
                         format = ''markdown'', pages = []\<rparr>))"
  by (simp add: MarkdownParser_parse_def readFile_def mkDocument_def Let_def split: run.splits)

lemma parse_None:
  "fs filename = None \<Longrightarrow> parse stack p fs filename = Returned (Inl (CannotOpenFile filename))"
  by (cases p)
    (simp_all add: TextParser_parse_def CSVParser_parse_def JSONParser_parse_def
      XMLParser_parse_def MarkdownParser_parse_def readFile_def)

lemma parse_format:
  assumes "parse stack p fs filename = Returned (Inr doc)" and "canParse p filename"
  shows "format doc \<noteq> []"
proof (cases "fs filename")
  case None
  with assms show ?thesis by (simp add: parse_None)
next
  case (Some bytes)
  show ?thesis
  proof (cases p)
    case TextParser
    with assms Some show ?thesis by (auto simp: TextParser_parse_Some)
  next
    case CSVParser
    with assms Some show ?thesis by (auto simp: CSVParser_parse_Some)
  next
    case JSONParser
    with assms Some show ?thesis by (auto simp: JSONParser_parse_Some split: sum.splits)
  next
    case XMLParser
    with assms Some show ?thesis
      by (auto simp: XMLParser_parse_Some XMLParser_canParse_def Let_def split: run.splits)
  next
    case MarkdownParser
    with assms Some show ?thesis
      by (auto simp: MarkdownParser_parse_Some split: run.splits)
  qed
qed

lemma detect_canParse: "detect filename = Some p \<Longrightarrow> canParse p filename"
  unfolding detect_def by (auto simp: find_Some_iff)

lemma parseDocument_format:
  assumes "parseDocument stack fs filename = Returned (Inr doc)"
  shows "format doc \<noteq> []"
proof -
  from assms obtain p d where p: "detect filename = Some p"
    and d: "parse stack p fs filename = Returned (Inr d)"
    and doc: "doc = d\<lparr>metadata := (metadata d)(''parser'' \<mapsto> getFormatName p,
                                                 ''filename'' \<mapsto> filename)\<rparr>"
    by (auto simp: parseDocument_detect split: option.splits run.splits sum.splits)
  from d detect_canParse [OF p] have "format d \<noteq> []" by (rule parse_format)
  with doc show ?thesis by simp
qed

section \<open>parseDocument, Documents and the Python binding\<close>

text \<open>
  C9: when the file name has a recognised extension, so that the loop stops at a parser
  \<open>p\<close>, a Document that \<open>p\<close> returns comes back with \<open>parser\<close> set to the format name of
  \<open>p\<close> (one of the five) and \<open>filename\<close> set to the file name, nothing else changed;
  an exception of \<open>p\<close> comes back inside the "Failed to parse" error with the file
  name.
\<close>

theorem parseDocument_stamps:
  assumes "detect filename = Some p"
  shows "(\<forall>d. parse stack p fs filename = Returned (Inr d) \<longrightarrow>
            parseDocument stack fs filename =
              Returned (Inr (d\<lparr>metadata := (metadata d)(''parser'' \<mapsto> getFormatName p,
                                                            ''filename'' \<mapsto> filename)\<rparr>))) \<and>
         (\<forall>e. parse stack p fs filename = Returned (Inl e) \<longrightarrow>
            parseDocument stack fs filename = Returned (Inl (FailedToParse filename e))) \<and>
         getFormatName p \<in> {''Plain Text'', ''CSV'', ''JSON'', ''XML/HTML'', ''Markdown''}"
proof (intro conjI allI impI)
  fix d assume "parse stack p fs filename = Returned (Inr d)"
  with assms show "parseDocument stack fs filename =
      Returned (Inr (d\<lparr>metadata := (metadata d)(''parser'' \<mapsto> getFormatName p,
                                                    ''filename'' \<mapsto> filename)\<rparr>))"
    by (simp add: parseDocument_detect)
next
  fix e assume "parse stack p fs filename = Returned (Inl e)"
  with assms show "parseDocument stack fs filename = Returned (Inl (FailedToParse filename e))"
    by (simp add: parseDocument_detect)
next
  show "getFormatName p \<in> {''Plain Text'', ''CSV'', ''JSON'', ''XML/HTML'', ''Markdown''}"
    by (cases p) simp_all
qed

theorem parseDocument_stamps_witness:
  "detect ''ab.txt'' = Some TextParser \<and>
   parseDocument 1000 [''ab.txt'' \<mapsto> ''hello''] ''ab.txt'' =
     Returned (Inr \<lparr>content = ''hello'',
          metadata = [''encoding'' \<mapsto> ''utf-8'', ''lines'' \<mapsto> ''1'',
                      ''parser'' \<mapsto> ''Plain Text'', ''filename'' \<mapsto> ''ab.txt''],
          format = ''text'', pages = []\<rparr>) \<and>
   detect ''gone.md'' = Some MarkdownParser \<and>
   parseDocument 1000 Map.empty ''gone.md'' =
     Returned (Inl (FailedToParse ''gone.md'' (CannotOpenFile ''gone.md'')))"
proof -
  have d1: "detect ''ab.txt'' = Some TextParser" by code_simp
  have d2: "detect ''gone.md'' = Some MarkdownParser" by code_simp
  have p1: "parse 1000 TextParser [''ab.txt'' \<mapsto> ''hello''] ''ab.txt'' =
      Returned (Inr \<lparr>content = ''hello'',
           metadata = [''encoding'' \<mapsto> ''utf-8'', ''lines'' \<mapsto> ''1''],
           format = ''text'', pages = []\<rparr>)"
    by (simp add: TextParser_parse_Some count_char_def to_string_1)
  have p2: "parse 1000 MarkdownParser Map.empty ''gone.md'' =
      Returned (Inl (CannotOpenFile ''gone.md''))"
    by (rule parse_None) simp
  from parseDocument_stamps [OF d1, of 1000 "[''ab.txt'' \<mapsto> ''hello'']"] p1
  have r1: "parseDocument 1000 [''ab.txt'' \<mapsto> ''hello''] ''ab.txt'' =
     Returned (Inr \<lparr>content = ''hello'',
          metadata = [''encoding'' \<mapsto> ''utf-8'', ''lines'' \<mapsto> ''1'',
                      ''parser'' \<mapsto> ''Plain Text'', ''filename'' \<mapsto> ''ab.txt''],
          format = ''text'', pages = []\<rparr>)"
    by simp
  from parseDocument_stamps [OF d2, of 1000 Map.empty] p2
  have r2: "parseDocument 1000 Map.empty ''gone.md'' =
      Returned (Inl (FailedToParse ''gone.md'' (CannotOpenFile ''gone.md'')))"
    by blast
  from d1 d2 r1 r2 show ?thesis by blast
qed

text \<open>
  C3, as stated, fails: \<^verbatim>\<open>parse_text\<close> with the empty format string returns a
  dictionary whose format is empty.
\<close>

theorem parse_text_content_empty_format:
  "\<not> (\<forall>text fmt. py_format (parse_text_content text fmt) \<noteq> [])"
proof
  assume "\<forall>text fmt. py_format (parse_text_content text fmt) \<noteq> []"
  then have "py_format (parse_text_content ''some text'' []) \<noteq> []" by blast
  then show False by (simp add: parse_text_content_def to_py_dict_def mkDocument_def)
qed

text \<open>
  C3, amended: every Document that \<^verbatim>\<open>parseDocument\<close> returns (and every dictionary
  that \<^verbatim>\<open>parse_document\<close> returns) has a non-empty format; \<^verbatim>\<open>parse_text\<close> returns the
  content and the format string it was given, unchanged, with the single metadata
  entry \<open>type = direct_content\<close>, so its format is non-empty exactly when the
  caller's format string is.
\<close>

theorem format_tag_nonempty:
  "(\<forall>doc. parseDocument stack fs filename = Returned (Inr doc) \<longrightarrow> format doc \<noteq> []) \<and>
   (\<forall>d. parse_document stack fs filename = Returned (Inr d) \<longrightarrow> py_format d \<noteq> []) \<and>
   py_content (parse_text_content text fmt) = text \<and>
   py_format (parse_text_content text fmt) = fmt \<and>
   py_metadata (parse_text_content text fmt) = [''type'' \<mapsto> ''direct_content''] \<and>
   py_pages (parse_text_content text fmt) = [] \<and>
   (py_format (parse_text_content text fmt) \<noteq> [] \<longleftrightarrow> fmt \<noteq> [])"
proof (intro conjI allI impI)
  fix doc assume "parseDocument stack fs filename = Returned (Inr doc)"
  then show "format doc \<noteq> []" by (rule parseDocument_format)
next
  fix d assume "parse_document stack fs filename = Returned (Inr d)"
  then obtain doc where "parseDocument stack fs filename = Returned (Inr doc)"
    and "d = to_py_dict doc"
    by (auto simp: parse_document_def split: run.splits sum.splits)
  then show "py_format d \<noteq> []"
    using parseDocument_format [of stack fs filename doc] by (simp add: to_py_dict_def)
qed (simp_all add: parse_text_content_def to_py_dict_def mkDocument_def)

theorem format_tag_nonempty_witness:
  "parseDocument 1000 [''Page.HTM'' \<mapsto> ''<i>x</i>''] ''Page.HTM'' =
     Returned (Inr \<lparr>content = '' x '',
          metadata = [''format'' \<mapsto> ''htm'', ''has_tags'' \<mapsto> ''true'',
                      ''parser'' \<mapsto> ''XML/HTML'', ''filename'' \<mapsto> ''Page.HTM''],
          format = ''htm'', pages = []\<rparr>) \<and>
   ''htm'' \<noteq> [] \<and>
   py_format (parse_text_content ''x'' ''note'') = ''note''"
proof -
  let ?doc = "\<lparr>content = '' x '',
          metadata = [''format'' \<mapsto> ''htm'', ''has_tags'' \<mapsto> ''true'',
                      ''parser'' \<mapsto> ''XML/HTML'', ''filename'' \<mapsto> ''Page.HTM''],
          format = ''htm'', pages = []\<rparr>"
  have r: "parseDocument 1000 [''Page.HTM'' \<mapsto> ''<i>x</i>''] ''Page.HTM'' = Returned (Inr ?doc)"
  proof -
    have "detect ''Page.HTM'' = Some XMLParser" by code_simp
    moreover have "getFileExtension ''Page.HTM'' = ''htm''" by code_simp
    moreover have "extractTextFromXML 1000 ''<i>x</i>'' = Returned '' x ''" by code_simp
    ultimately show ?thesis
      by (simp add: parseDocument_detect XMLParser_parse_Some)
  qed
  note T = format_tag_nonempty
    [of 1000 "[''Page.HTM'' \<mapsto> ''<i>x</i>'']" "''Page.HTM''" "''x''" "''note''"]
  from T r have "format ?doc \<noteq> []" by blast
  then have "''htm'' \<noteq> []" by simp
  moreover from T have "py_format (parse_text_content ''x'' ''note'') = ''note''" by blast
  ultimately show ?thesis using r by blast
qed

lemma formatJSON_leading_close:
  assumes "c = CHR ''}'' \<or> c = CHR '']''"
  shows "formatJSON (c # rest) = Inl LengthError"
  using assms
  by (auto simp: formatJSON_def formatJSON_loop.simps [of "c # rest" 0] string_fill_def Let_def)

text \<open>
  C1: on the input \<^verbatim>\<open>}\<close> the indent of \<^verbatim>\<open>formatJSON\<close> becomes \<open>-1\<close>, the string of
  \<open>indent * 2\<close> spaces cannot be built and \<^verbatim>\<open>std::length_error\<close> is thrown:
  \<^verbatim>\<open>JSONParser::parse\<close> fails and \<^verbatim>\<open>parseDocument\<close> throws its "Failed to parse"
  error. No space count is clamped to zero. The same happens on every input that
  starts with \<^verbatim>\<open>}\<close> or \<^verbatim>\<open>]\<close>.
\<close>

theorem formatJSON_unbalanced_close_throws:
  "(\<forall>rest. formatJSON (CHR ''}'' # rest) = Inl LengthError) \<and>
   (\<forall>rest. formatJSON (CHR '']'' # rest) = Inl LengthError) \<and>
   formatJSON ''}'' = Inl LengthError \<and>
   JSONParser_parse [''bad.json'' \<mapsto> ''}''] ''bad.json'' = Inl LengthError \<and>
   parseDocument stack [''bad.json'' \<mapsto> ''}''] ''bad.json''
     = Returned (Inl (FailedToParse ''bad.json'' LengthError))"
proof -
  have "detect ''bad.json'' = Some JSONParser" by code_simp
  then show ?thesis
    by (simp add: parseDocument_detect JSONParser_parse_Some formatJSON_leading_close)
qed

section \<open>The regular expressions of the source and the substitutions they perform\<close>

lemma first_some_Cons: "first_some (x # xs) = (case x of Some y \<Rightarrow> Some y | None \<Rightarrow> first_some xs)"
  by (cases x) simp_all

lemma first_some_all_None: "(\<And>x. x \<in> set xs \<Longrightarrow> x = None) \<Longrightarrow> first_some xs = None"
  by (induction xs) (auto simp: first_some_Cons split: option.splits)

lemma first_some_rev_upt:
  assumes "\<And>k. lo \<le> k \<Longrightarrow> k < m \<Longrightarrow> f k = None"
  shows "first_some (map f (rev [lo ..< Suc m])) = (if lo \<le> m then f m else None)"
proof (cases "lo \<le> m")
  case True
  have "first_some (map f (rev [lo ..< m])) = None"
    using assms by (intro first_some_all_None) auto
  with True show ?thesis
    by (simp add: first_some_Cons split: option.splits)
next
  case False
  then show ?thesis by simp
qed

lemma first_some_rev_upt_Some:
  assumes "lo \<le> m" and "f m = Some y"
  shows "first_some (map f (rev [lo ..< Suc m])) = Some y"
  using assms by simp

lemma atom_ok_Space: "atom_ok Space = isspace"
  by (rule ext) simp

lemma rx_match_Rep_last:
  "rx_match [Rep lo a] b s =
     (if lo \<le> length (takeWhile (atom_ok a) s)
      then Some ([], length (takeWhile (atom_ok a) s)) else None)"
  by simp

lemma extractTextFromXML_loop_strip_tags:
  "extractTextFromXML_loop xml result inTag = result @ strip_tags inTag xml"
  by (induction xml result inTag rule: extractTextFromXML_loop.induct) auto

lemma drop_length_takeWhile: "drop (length (takeWhile P xs)) xs = dropWhile P xs"
  by (induction xs) auto

lemma collapse_whitespace_id: "\<forall>c \<in> set s. \<not> isspace c \<Longrightarrow> collapse_whitespace s = s"
  by (induction s) auto

lemma collapse_whitespace_run_front:
  assumes "w \<noteq> []" and "\<forall>c \<in> set w. isspace c" and "v = [] \<or> \<not> isspace (hd v)"
  shows "collapse_whitespace (w @ v) = CHR '' '' # collapse_whitespace v"
proof -
  from assms(1) obtain c w' where w: "w = c # w'" by (cases w) auto
  with assms(2) have "isspace c" and w': "\<forall>c \<in> set w'. isspace c" by auto
  from w' assms(3) have "dropWhile isspace (w' @ v) = v"
    by (cases v) (auto simp: dropWhile_append3 dropWhile_append)
  with w \<open>isspace c\<close> show ?thesis by simp
qed

lemma collapse_whitespace_append:
  assumes "u = [] \<or> \<not> isspace (last u)"
  shows "collapse_whitespace (u @ t) = collapse_whitespace u @ collapse_whitespace t"
  using assms
proof (induction u rule: collapse_whitespace.induct)
  case 1
  show ?case by simp
next
  case (2 c cs)
  show ?case
  proof (cases "isspace c")
    case True
    with "2.prems" have ne: "cs \<noteq> []" by auto
    with "2.prems" have l: "\<not> isspace (last cs)" by auto
    then have dne: "dropWhile isspace cs \<noteq> []"
      using ne by (metis dropWhile_eq_Nil_conv last_in_set)
    have "last (dropWhile isspace cs) = last cs"
      using dne by (metis last_appendR takeWhile_dropWhile_id)
    with l dne have "collapse_whitespace (dropWhile isspace cs @ t) =
       collapse_whitespace (dropWhile isspace cs) @ collapse_whitespace t"
      using "2.IH"(1) [OF True] by simp
    moreover have "dropWhile isspace (cs @ t) = dropWhile isspace cs @ t"
      using dne by (metis dropWhile_append1 dropWhile_eq_Nil_conv)
    ultimately show ?thesis using True by simp
  next
    case False
    with "2.prems" have "cs = [] \<or> \<not> isspace (last cs)" by (auto split: if_splits)
    with "2.IH"(2) [OF False] False show ?thesis by simp
  qed
qed

lemma collapse_whitespace_run:
  assumes "u = [] \<or> \<not> isspace (last u)" and "w \<noteq> []" and "\<forall>c \<in> set w. isspace c"
    and "v = [] \<or> \<not> isspace (hd v)"
  shows "collapse_whitespace (u @ w @ v) = collapse_whitespace u @ '' '' @ collapse_whitespace v"
  using collapse_whitespace_append [OF assms(1), of "w @ v"]
    collapse_whitespace_run_front [OF assms(2,3,4)] by simp

lemma atom_ok_NotCh: "atom_ok (NotCh d) = (\<lambda>c. c \<noteq> d)"
  by (rule ext) simp

lemma atom_ok_Ch: "atom_ok (Ch d) = (\<lambda>c. c = d)"
  by (rule ext) simp

lemma rx_match_no_Bol:
  "Bol \<notin> set re \<Longrightarrow> rx_match re b s = rx_match re False s"
proof (induction re arbitrary: b s)
  case Nil
  show ?case by simp
next
  case (Cons p re)
  then have IH: "\<And>b s. rx_match re b s = rx_match re False s" by simp
  show ?case
  proof (cases p)
    case (One a)
    then show ?thesis by simp
  next
    case (Rep lo a)
    have "\<And>k. rx_match re (b \<and> k = 0) (drop k s) = rx_match re (False \<and> k = 0) (drop k s)"
      using IH by metis
    with Rep show ?thesis by simp
  next
    case (Capture lo a)
    have "\<And>k. rx_match re (b \<and> k = 0) (drop k s) = rx_match re (False \<and> k = 0) (drop k s)"
      using IH by metis
    with Capture show ?thesis by simp
  next
    case Bol
    with Cons.prems show ?thesis by simp
  qed
qed

lemma rx_match_lits_append:
  "rx_match (lits t @ re) b s =
     (if t = [] then rx_match re b s
      else if take (length t) s = t
      then map_option (\<lambda>(g, n). (g, length t + n)) (rx_match re False (drop (length t) s))
      else None)"
proof (induction t arbitrary: b s)
  case Nil
  show ?case by (simp add: lits_def)
next
  case (Cons d t)
  show ?case
  proof (cases s)
    case Nil
    then show ?thesis by (simp add: lits_def)
  next
    case (Cons c cs)
    have "rx_match (lits t @ re) False cs =
        (if t = [] then rx_match re False cs
         else if take (length t) cs = t
         then map_option (\<lambda>(g, n). (g, length t + n)) (rx_match re False (drop (length t) cs))
         else None)"
      by (rule Cons.IH)
    then show ?thesis
      using Cons by (auto simp: lits_def option.map_comp comp_def case_prod_unfold option.map_ident)
  qed
qed

lemma rx_match_lits:
  "rx_match (lits t) b s = (if take (length t) s = t then Some ([], length t) else None)"
  using rx_match_lits_append [of t "[]" b s] by (auto simp: take_Nil)

lemma takeWhile_nth_holds: "k < length (takeWhile P xs) \<Longrightarrow> P (xs ! k)"
  by (metis nth_mem set_takeWhileD takeWhile_nth)

lemma rx_match_stop_short:
  assumes "k < length (takeWhile (\<lambda>c. c \<noteq> d) s)"
  shows "rx_match (One (Ch d) # re) b (drop k s) = None"
proof -
  from assms have "s ! k \<noteq> d" by (rule takeWhile_nth_holds)
  moreover from assms have "k < length s"
    by (meson length_takeWhile_le less_le_trans)
  then have "drop k s = s ! k # drop (Suc k) s"
    by (simp add: Cons_nth_drop_Suc)
  ultimately show ?thesis by simp
qed

lemma rx_match_stop_full:
  "rx_match (One (Ch d) # re) b (drop (length (takeWhile (\<lambda>c. c \<noteq> d) s)) s) =
     (case dropWhile (\<lambda>c. c \<noteq> d) s of
        [] \<Rightarrow> None
      | c # cs \<Rightarrow> map_option (\<lambda>(g, n). (g, Suc n)) (rx_match re False cs))"
proof (cases "dropWhile (\<lambda>c. c \<noteq> d) s")
  case Nil
  show ?thesis unfolding drop_length_takeWhile Nil by simp
next
  case (Cons c cs)
  then have "c = d"
    using hd_dropWhile [of "\<lambda>c. c \<noteq> d" s] by auto
  then show ?thesis unfolding drop_length_takeWhile Cons by simp
qed

lemma rx_match_Capture_stop:
  "rx_match (Capture lo (NotCh d) # One (Ch d) # re) b s =
     (if lo \<le> length (takeWhile (\<lambda>c. c \<noteq> d) s) then
        (case dropWhile (\<lambda>c. c \<noteq> d) s of
           [] \<Rightarrow> None
         | c # cs \<Rightarrow>
             map_option (\<lambda>(g, n). (takeWhile (\<lambda>c. c \<noteq> d) s,
                                    length (takeWhile (\<lambda>c. c \<noteq> d) s) + Suc n))
               (rx_match re False cs))
      else None)"
proof -
  let ?m = "length (takeWhile (\<lambda>c. c \<noteq> d) s)"
  let ?f = "\<lambda>k. map_option (\<lambda>(g, n). (take k s, k + n))
                   (rx_match (One (Ch d) # re) (b \<and> k = 0) (drop k s))"
  have short: "\<And>k. lo \<le> k \<Longrightarrow> k < ?m \<Longrightarrow> ?f k = None"
    by (simp only: rx_match_stop_short option.map_disc_iff)
  have full: "?f ?m =
      (case dropWhile (\<lambda>c. c \<noteq> d) s of
         [] \<Rightarrow> None
       | c # cs \<Rightarrow>
           map_option (\<lambda>(g, n). (takeWhile (\<lambda>c. c \<noteq> d) s, ?m + Suc n)) (rx_match re False cs))"
  proof (cases "dropWhile (\<lambda>c. c \<noteq> d) s")
    case Nil
    show ?thesis unfolding rx_match_stop_full Nil by simp
  next
    case (Cons c cs)
    show ?thesis unfolding rx_match_stop_full Cons
      by (simp add: option.map_comp comp_def case_prod_unfold takeWhile_eq_take [symmetric])
  qed
  have "rx_match (Capture lo (NotCh d) # One (Ch d) # re) b s =
      first_some (map ?f (rev [lo ..< Suc ?m]))"
    by (simp only: rx_match.simps atom_ok_NotCh)
  also have "\<dots> = (if lo \<le> ?m then ?f ?m else None)"
    using short by (rule first_some_rev_upt)
  finally show ?thesis unfolding full .
qed

lemma rx_match_Rep_stop:
  "rx_match (Rep lo (NotCh d) # One (Ch d) # re) b s =
     (if lo \<le> length (takeWhile (\<lambda>c. c \<noteq> d) s) then
        (case dropWhile (\<lambda>c. c \<noteq> d) s of
           [] \<Rightarrow> None
         | c # cs \<Rightarrow>
             map_option (\<lambda>(g, n). (g, length (takeWhile (\<lambda>c. c \<noteq> d) s) + Suc n))
               (rx_match re False cs))
      else None)"
proof -
  let ?m = "length (takeWhile (\<lambda>c. c \<noteq> d) s)"
  let ?f = "\<lambda>k. map_option (\<lambda>(g, n). (g, k + n))
                   (rx_match (One (Ch d) # re) (b \<and> k = 0) (drop k s))"
  have short: "\<And>k. lo \<le> k \<Longrightarrow> k < ?m \<Longrightarrow> ?f k = None"
    by (simp only: rx_match_stop_short option.map_disc_iff)
  have full: "?f ?m =
      (case dropWhile (\<lambda>c. c \<noteq> d) s of
         [] \<Rightarrow> None
       | c # cs \<Rightarrow> map_option (\<lambda>(g, n). (g, ?m + Suc n)) (rx_match re False cs))"
  proof (cases "dropWhile (\<lambda>c. c \<noteq> d) s")
    case Nil
    show ?thesis unfolding rx_match_stop_full Nil by simp
  next
    case (Cons c cs)
    show ?thesis unfolding rx_match_stop_full Cons
      by (simp add: option.map_comp comp_def case_prod_unfold)
  qed
  have "rx_match (Rep lo (NotCh d) # One (Ch d) # re) b s =
      first_some (map ?f (rev [lo ..< Suc ?m]))"
    by (simp only: rx_match.simps atom_ok_NotCh)
  also have "\<dots> = (if lo \<le> ?m then ?f ?m else None)"
    using short by (rule first_some_rev_upt)
  finally show ?thesis unfolding full .
qed

lemma Bol_notin_lits: "Bol \<notin> set (lits t)"
  by (auto simp: lits_def)

lemma rx_match_lits_then:
  assumes "Bol \<notin> set re"
  shows "rx_match (lits t @ re) b s =
     (if take (length t) s = t
      then map_option (\<lambda>(g, n). (g, length t + n)) (rx_match re False (drop (length t) s))
      else None)"
proof (cases "t = []")
  case True
  then show ?thesis
    using rx_match_no_Bol [OF assms, of b s]
    by (simp add: lits_def case_prod_unfold option.map_ident)
next
  case False
  then show ?thesis by (simp add: rx_match_lits_append)
qed

lemma dropWhile_stop_Cons:
  "dropWhile (\<lambda>c. c \<noteq> d) t = c # cs \<Longrightarrow> c = d"
  using hd_dropWhile [of "\<lambda>c. c \<noteq> d" t] by auto

lemma wrapped_alt:
  "wrapped lo opening stop (stop # closing) s =
     (if take (length opening) s = opening \<and>
         lo \<le> length (takeWhile (\<lambda>c. c \<noteq> stop) (drop (length opening) s))
      then (case dropWhile (\<lambda>c. c \<noteq> stop) (drop (length opening) s) of
              [] \<Rightarrow> None
            | c # cs \<Rightarrow>
                if take (length closing) cs = closing
                then Some (takeWhile (\<lambda>c. c \<noteq> stop) (drop (length opening) s),
                           length opening
                           + length (takeWhile (\<lambda>c. c \<noteq> stop) (drop (length opening) s))
                           + Suc (length closing))
                else None)
      else None)"
proof -
  let ?t = "drop (length opening) s"
  let ?body = "takeWhile (\<lambda>c. c \<noteq> stop) ?t"
  have rest: "drop (length opening + length ?body) s = dropWhile (\<lambda>c. c \<noteq> stop) ?t"
    using drop_length_takeWhile [of "\<lambda>c. c \<noteq> stop" ?t] by (simp add: add.commute)
  show ?thesis
  proof (cases "dropWhile (\<lambda>c. c \<noteq> stop) ?t")
    case Nil
    show ?thesis unfolding wrapped_def Let_def rest Nil by simp
  next
    case (Cons c cs)
    then have "c = stop" by (rule dropWhile_stop_Cons)
    then show ?thesis unfolding wrapped_def Let_def rest Cons by simp
  qed
qed

lemma drop_after_wrapped:
  assumes "dropWhile (\<lambda>c. c \<noteq> stop) (drop (length opening) s) = c # cs"
  shows "drop (length opening
               + length (takeWhile (\<lambda>c. c \<noteq> stop) (drop (length opening) s))
               + Suc (length closing)) s = drop (length closing) cs"
proof -
  let ?t = "drop (length opening) s"
  let ?body = "takeWhile (\<lambda>c. c \<noteq> stop) ?t"
  have "drop (length opening + length ?body + Suc (length closing)) s =
      drop (Suc (length closing)) (drop (length ?body) ?t)"
    by (simp add: add.commute add.left_commute)
  also have "\<dots> = drop (Suc (length closing)) (c # cs)"
    using assms by (simp only: drop_length_takeWhile)
  finally show ?thesis by simp
qed

lemma rx_match_Capture_wrapped:
  assumes "Bol \<notin> set re"
  shows "rx_match (lits opening @ Capture lo (NotCh stop) # One (Ch stop) # lits closing @ re) b s =
     (case wrapped lo opening stop (stop # closing) s of
        None \<Rightarrow> None
      | Some (body, n) \<Rightarrow> map_option (\<lambda>(g, k). (body, n + k)) (rx_match re False (drop n s)))"
proof -
  let ?t = "drop (length opening) s"
  let ?P = "\<lambda>c. c \<noteq> stop"
  have nb: "Bol \<notin> set (Capture lo (NotCh stop) # One (Ch stop) # lits closing @ re)"
    using assms by (simp add: Bol_notin_lits)
  show ?thesis
  proof (cases "dropWhile ?P ?t")
    case Nil
    show ?thesis
      unfolding rx_match_lits_then [OF nb] rx_match_Capture_stop wrapped_alt Nil by simp
  next
    case (Cons c cs)
    have after: "drop (Suc (length opening + (length (takeWhile ?P ?t) + length closing))) s =
        drop (length closing) cs"
      using drop_after_wrapped [OF Cons, of closing] by (simp add: add.assoc)
    show ?thesis
      unfolding rx_match_lits_then [OF nb] rx_match_Capture_stop wrapped_alt Cons
        rx_match_lits_then [OF assms]
      by (simp add: after option.map_comp comp_def case_prod_unfold add.assoc)
  qed
qed

lemma rx_match_Rep_wrapped:
  assumes "Bol \<notin> set re"
  shows "rx_match (lits opening @ Rep lo (NotCh stop) # One (Ch stop) # lits closing @ re) b s =
     (case wrapped lo opening stop (stop # closing) s of
        None \<Rightarrow> None
      | Some (body, n) \<Rightarrow> map_option (\<lambda>(g, k). (g, n + k)) (rx_match re False (drop n s)))"
proof -
  let ?t = "drop (length opening) s"
  let ?P = "\<lambda>c. c \<noteq> stop"
  have nb: "Bol \<notin> set (Rep lo (NotCh stop) # One (Ch stop) # lits closing @ re)"
    using assms by (simp add: Bol_notin_lits)
  show ?thesis
  proof (cases "dropWhile ?P ?t")
    case Nil
    show ?thesis
      unfolding rx_match_lits_then [OF nb] rx_match_Rep_stop wrapped_alt Nil by simp
  next
    case (Cons c cs)
    have after: "drop (Suc (length opening + (length (takeWhile ?P ?t) + length closing))) s =
        drop (length closing) cs"
      using drop_after_wrapped [OF Cons, of closing] by (simp add: add.assoc)
    show ?thesis
      unfolding rx_match_lits_then [OF nb] rx_match_Rep_stop wrapped_alt Cons
        rx_match_lits_then [OF assms]
      by (simp add: after option.map_comp comp_def case_prod_unfold add.assoc)
  qed
qed

lemma rx_bold_shape:
  "rx_bold = lits ''**'' @ Capture 1 (NotCh (CHR ''*'')) # One (Ch (CHR ''*'')) # lits ''*'' @ []"
  by (simp add: rx_bold_def lits_def)

lemma rx_italic_shape:
  "rx_italic = lits ''*'' @ Capture 1 (NotCh (CHR ''*'')) # One (Ch (CHR ''*'')) # lits [] @ []"
  by (simp add: rx_italic_def lits_def)

lemma rx_code_shape:
  "rx_code = lits [backtick] @ Capture 1 (NotCh backtick) # One (Ch backtick) # lits [] @ []"
  by (simp add: rx_code_def lits_def)

lemma rx_fence_shape:
  "rx_fence = lits [backtick, backtick, backtick] @ Rep 0 (NotCh backtick) # One (Ch backtick)
               # lits [backtick, backtick] @ []"
  by (simp add: rx_fence_def lits_def)

lemma rx_link_shape:
  "rx_link = lits ''['' @ Capture 1 (NotCh (CHR '']'')) # One (Ch (CHR '']'')) # lits ''('' @
       (lits [] @ Rep 1 (NotCh (CHR '')'')) # One (Ch (CHR '')'')) # lits [] @ [])"
  by (simp add: rx_link_def lits_def)

lemma rx_match_rx_bold: "map_option (\<lambda>(g, n). (expand Group1 g, n)) (rx_match rx_bold b s) = bold_at s"
proof -
  have "rx_match rx_bold b s =
      (case wrapped 1 ''**'' (CHR ''*'') ''**'' s of
         None \<Rightarrow> None
       | Some (body, n) \<Rightarrow> map_option (\<lambda>(g, k). (body, n + k)) (rx_match [] False (drop n s)))"
    unfolding rx_bold_shape by (rule rx_match_Capture_wrapped) simp
  then show ?thesis
    by (simp add: bold_at_def split: option.splits)
qed

lemma rx_match_rx_italic:
  "map_option (\<lambda>(g, n). (expand Group1 g, n)) (rx_match rx_italic b s) = italic_at s"
proof -
  have "rx_match rx_italic b s =
      (case wrapped 1 ''*'' (CHR ''*'') ''*'' s of
         None \<Rightarrow> None
       | Some (body, n) \<Rightarrow> map_option (\<lambda>(g, k). (body, n + k)) (rx_match [] False (drop n s)))"
    unfolding rx_italic_shape by (rule rx_match_Capture_wrapped) simp
  then show ?thesis
    by (simp add: italic_at_def split: option.splits)
qed

lemma rx_match_rx_code:
  "map_option (\<lambda>(g, n). (expand Group1 g, n)) (rx_match rx_code b s) = code_at s"
proof -
  have "rx_match rx_code b s =
      (case wrapped 1 [backtick] backtick [backtick] s of
         None \<Rightarrow> None
       | Some (body, n) \<Rightarrow> map_option (\<lambda>(g, k). (body, n + k)) (rx_match [] False (drop n s)))"
    unfolding rx_code_shape by (rule rx_match_Capture_wrapped) simp
  then show ?thesis
    by (simp add: code_at_def split: option.splits)
qed

lemma rx_match_rx_fence:
  "map_option (\<lambda>(g, n). (expand (Literal []) g, n)) (rx_match rx_fence b s) = fence_at s"
proof -
  have "rx_match rx_fence b s =
      (case wrapped 0 [backtick, backtick, backtick] backtick [backtick, backtick, backtick] s of
         None \<Rightarrow> None
       | Some (body, n) \<Rightarrow> map_option (\<lambda>(g, k). (g, n + k)) (rx_match [] False (drop n s)))"
    unfolding rx_fence_shape by (rule rx_match_Rep_wrapped) simp
  then show ?thesis
    by (simp add: fence_at_def split: option.splits)
qed

lemma rx_match_rx_link:
  "map_option (\<lambda>(g, n). (expand Group1 g, n)) (rx_match rx_link b s) = link_at s"
proof -
  let ?tail = "lits [] @ Rep 1 (NotCh (CHR '')'')) # One (Ch (CHR '')'')) # lits [] @ []"
  have nb: "Bol \<notin> set ?tail"
    by (simp add: lits_def)
  have tail: "\<And>t. rx_match ?tail False t =
      (case wrapped 1 [] (CHR '')'') '')'' t of
         None \<Rightarrow> None
       | Some (body, n) \<Rightarrow> map_option (\<lambda>(g, k). (g, n + k)) (rx_match [] False (drop n t)))"
    by (rule rx_match_Rep_wrapped) simp
  have "rx_match rx_link b s =
      (case wrapped 1 ''['' (CHR '']'') '']('' s of
         None \<Rightarrow> None
       | Some (body, n) \<Rightarrow> map_option (\<lambda>(g, k). (body, n + k)) (rx_match ?tail False (drop n s)))"
    unfolding rx_link_shape using nb by (rule rx_match_Capture_wrapped)
  then show ?thesis
    unfolding tail by (simp add: link_at_def split: option.splits)
qed

lemma rx_match_rx_header_begin:
  "rx_match rx_header True s =
     (if 1 \<le> length (takeWhile (\<lambda>c. c = CHR ''#'') s)
      then Some ([], length (takeWhile (\<lambda>c. c = CHR ''#'') s)
                     + length (takeWhile isspace (dropWhile (\<lambda>c. c = CHR ''#'') s)))
      else None)"
proof -
  let ?m = "length (takeWhile (\<lambda>c. c = CHR ''#'') s)"
  let ?f = "\<lambda>k. map_option (\<lambda>(g, n). (g, k + n)) (rx_match [Rep 0 Space] (True \<and> k = 0) (drop k s))"
  have eq: "rx_match rx_header True s = first_some (map ?f (rev [1 ..< Suc ?m]))"
    by (simp only: rx_header_def rx_match.simps atom_ok_Ch if_True)
  have fm: "?f ?m = Some ([], ?m + length (takeWhile isspace (dropWhile (\<lambda>c. c = CHR ''#'') s)))"
    by (simp only: rx_match_Rep_last atom_ok_Space drop_length_takeWhile) simp
  show ?thesis
  proof (cases "1 \<le> ?m")
    case True
    then have "first_some (map ?f (rev [1 ..< Suc ?m])) =
        Some ([], ?m + length (takeWhile isspace (dropWhile (\<lambda>c. c = CHR ''#'') s)))"
      using fm by (rule first_some_rev_upt_Some)
    with eq True show ?thesis by (simp only: if_True)
  next
    case False
    then have "[1 ..< Suc ?m] = []" by simp
    then have "first_some (map ?f (rev [1 ..< Suc ?m])) = None"
      by (simp only: rev.simps list.map first_some.simps)
    with eq False show ?thesis by (simp only: if_False)
  qed
qed

lemma rx_match_rx_header_later: "rx_match rx_header False s = None"
  by (simp add: rx_header_def)

lemma wrapped_Some_iff:
  "wrapped lo opening stop (stop # closing) s = Some (body, n) \<longleftrightarrow>
     (\<exists>rest. s = opening @ body @ stop # closing @ rest) \<and> stop \<notin> set body \<and>
     lo \<le> length body \<and> n = length opening + length body + Suc (length closing)"
  (is "?L \<longleftrightarrow> ?R")
proof
  let ?t = "drop (length opening) s"
  let ?P = "\<lambda>c. c \<noteq> stop"
  assume ?L
  then obtain c cs where o: "take (length opening) s = opening" and lo: "lo \<le> length (takeWhile ?P ?t)"
    and d: "dropWhile ?P ?t = c # cs" and cl: "take (length closing) cs = closing"
    and b: "body = takeWhile ?P ?t" and n: "n = length opening + length (takeWhile ?P ?t) + Suc (length closing)"
    unfolding wrapped_alt by (auto split: if_splits list.splits)
  from d have c: "c = stop" by (rule dropWhile_stop_Cons)
  have "s = take (length opening) s @ ?t" by simp
  also have "?t = takeWhile ?P ?t @ dropWhile ?P ?t" by simp
  also have "dropWhile ?P ?t = stop # take (length closing) cs @ drop (length closing) cs"
    using d c by simp
  finally have "s = opening @ body @ stop # closing @ drop (length closing) cs"
    using o b cl by simp
  then have ex: "\<exists>rest. s = opening @ body @ stop # closing @ rest" ..
  have nb: "stop \<notin> set body"
    using b set_takeWhileD by fastforce
  have lo': "lo \<le> length body"
    using lo b by simp
  have n': "n = length opening + length body + Suc (length closing)"
    using n b by simp
  from ex nb lo' n' show ?R by blast
next
  assume ?R
  then obtain rest where s: "s = opening @ body @ stop # closing @ rest" and nb: "stop \<notin> set body"
    and lo: "lo \<le> length body" and n: "n = length opening + length body + Suc (length closing)"
    by blast
  from nb have tw: "takeWhile (\<lambda>c. c \<noteq> stop) (body @ stop # closing @ rest) = body"
    by (induction body) auto
  from nb have dw: "dropWhile (\<lambda>c. c \<noteq> stop) (body @ stop # closing @ rest) = stop # closing @ rest"
    by (induction body) auto
  show ?L
    unfolding wrapped_alt using lo n by (simp add: s tw dw)
qed

lemma bold_at_iff:
  "bold_at s = Some (x, n) \<longleftrightarrow>
     (\<exists>rest. s = ''**'' @ x @ ''**'' @ rest) \<and> CHR ''*'' \<notin> set x \<and> x \<noteq> [] \<and> n = length x + 4"
  unfolding bold_at_def wrapped_Some_iff by (cases x) auto

lemma italic_at_iff:
  "italic_at s = Some (x, n) \<longleftrightarrow>
     (\<exists>rest. s = ''*'' @ x @ ''*'' @ rest) \<and> CHR ''*'' \<notin> set x \<and> x \<noteq> [] \<and> n = length x + 2"
  unfolding italic_at_def wrapped_Some_iff by (cases x) auto

lemma code_at_iff:
  "code_at s = Some (x, n) \<longleftrightarrow>
     (\<exists>rest. s = [backtick] @ x @ [backtick] @ rest) \<and> backtick \<notin> set x \<and> x \<noteq> [] \<and>
     n = length x + 2"
  unfolding code_at_def wrapped_Some_iff by (cases x) auto

lemma fence_at_iff:
  "fence_at s = Some (out, n) \<longleftrightarrow>
     out = [] \<and>
     (\<exists>x rest. s = [backtick, backtick, backtick] @ x @ [backtick, backtick, backtick] @ rest \<and>
        backtick \<notin> set x \<and> n = length x + 6)"
proof -
  have "fence_at s = Some (out, n) \<longleftrightarrow>
      out = [] \<and> (\<exists>x. wrapped 0 [backtick, backtick, backtick] backtick
                          [backtick, backtick, backtick] s = Some (x, n))"
    by (auto simp: fence_at_def split: option.splits)
  then show ?thesis
    unfolding wrapped_Some_iff by auto
qed

lemma link_at_iff:
  "link_at s = Some (x, n) \<longleftrightarrow>
     (\<exists>y rest. s = ''['' @ x @ '']('' @ y @ '')'' @ rest \<and> CHR '']'' \<notin> set x \<and> x \<noteq> [] \<and>
        CHR '')'' \<notin> set y \<and> y \<noteq> [] \<and> n = length x + length y + 4)"
  (is "?L \<longleftrightarrow> ?R")
proof
  assume ?L
  then obtain k y j where w1: "wrapped 1 ''['' (CHR '']'') '']('' s = Some (x, k)"
    and w2: "wrapped 1 [] (CHR '')'') '')'' (drop k s) = Some (y, j)" and n: "n = k + j"
    by (auto simp: link_at_def split: option.splits)
  from w1 obtain r1 where s: "s = ''['' @ x @ '']('' @ r1" and x: "CHR '']'' \<notin> set x" "1 \<le> length x"
    and k: "k = length x + 3"
    unfolding wrapped_Some_iff by auto
  have "s = (''['' @ x @ '']('') @ r1"
    using s by simp
  moreover have "length (''['' @ x @ '']('') = k"
    using k by simp
  ultimately have "drop k s = r1"
    by (metis append_eq_conv_conj)
  with w2 obtain r2 where r1: "r1 = y @ '')'' @ r2" and y: "CHR '')'' \<notin> set y" "1 \<le> length y"
    and j: "j = length y + 1"
    unfolding wrapped_Some_iff by auto
  from s r1 have "s = ''['' @ x @ '']('' @ y @ '')'' @ r2" by simp
  moreover from x y have "x \<noteq> []" "y \<noteq> []" by auto
  moreover from n k j have "n = length x + length y + 4" by simp
  ultimately show ?R using x y by blast
next
  assume ?R
  then obtain y rest where s: "s = ''['' @ x @ '']('' @ y @ '')'' @ rest"
    and x: "CHR '']'' \<notin> set x" "x \<noteq> []" and y: "CHR '')'' \<notin> set y" "y \<noteq> []"
    and n: "n = length x + length y + 4"
    by blast
  from x have lx: "1 \<le> length x" by (cases x) auto
  from y have ly: "1 \<le> length y" by (cases y) auto
  have w1: "wrapped 1 ''['' (CHR '']'') '']('' s = Some (x, length x + 3)"
    unfolding wrapped_Some_iff using s x lx by auto
  have "s = (''['' @ x @ '']('') @ y @ '')'' @ rest"
    using s by simp
  moreover have "length (''['' @ x @ '']('') = length x + 3"
    by simp
  ultimately have "drop (length x + 3) s = y @ '')'' @ rest"
    by (metis append_eq_conv_conj)
  then have w2: "wrapped 1 [] (CHR '')'') '')'' (drop (length x + 3) s) = Some (y, length y + 1)"
    unfolding wrapped_Some_iff using y ly by auto
  from w1 w2 n show ?L
    by (simp add: link_at_def)
qed

lemma strip_leading_header_no_hash:
  "md = [] \<or> hd md \<noteq> CHR ''#'' \<Longrightarrow> strip_leading_header md = md"
  by (cases md) (auto simp: strip_leading_header_def)

lemma not_isspace_hash: "\<not> isspace (CHR ''#'')"
  by (simp add: isspace_def)

lemma strip_leading_header_hashes:
  assumes "\<forall>c \<in> set w. isspace c" and "v = [] \<or> \<not> isspace (hd v)"
    and "w \<noteq> [] \<or> v = [] \<or> hd v \<noteq> CHR ''#''"
  shows "strip_leading_header (replicate (Suc k) (CHR ''#'') @ w @ v) = v"
proof -
  have a: "dropWhile (\<lambda>x. x = CHR ''#'') (replicate k (CHR ''#'') @ w @ v) = w @ v"
  proof (cases w)
    case Nil
    with assms(3) show ?thesis
      by (cases v) (auto simp: dropWhile_append)
  next
    case (Cons c w')
    with assms(1) have "c \<noteq> CHR ''#''" using not_isspace_hash by auto
    with Cons show ?thesis by (auto simp: dropWhile_append)
  qed
  have b: "dropWhile isspace (w @ v) = v"
    using assms(1,2) by (cases v) (auto simp: dropWhile_append)
  show ?thesis
    by (simp add: strip_leading_header_def a b)
qed

section \<open>The depth of the matcher\<close>

lemma set_tried: "set (tried f ks) \<subseteq> set ks"
  by (induction ks) (auto split: option.splits)

lemma foldr_max_le:
  fixes B :: nat
  shows "base \<le> B \<Longrightarrow> (\<And>x. x \<in> set xs \<Longrightarrow> x \<le> B) \<Longrightarrow> foldr max xs base \<le> B"
  by (induction xs) auto

lemma foldr_max_ge:
  fixes base :: nat
  shows "base \<le> foldr max xs base"
  by (induction xs) (auto simp: le_max_iff_disj)

lemma rx_peak_repetition_le:
  assumes IH: "\<And>b d t. rx_peak re b d t \<le> d + length t"
  shows "foldr max
       (map (\<lambda>k. rx_peak re (b \<and> k = 0) (d + k) (drop k s))
          (tried f (rev [lo ..< Suc (length (takeWhile P s))])))
       (d + length (takeWhile P s)) \<le> d + length s"
proof (rule foldr_max_le)
  show "d + length (takeWhile P s) \<le> d + length s"
    by (simp add: length_takeWhile_le)
next
  fix x
  assume "x \<in> set (map (\<lambda>k. rx_peak re (b \<and> k = 0) (d + k) (drop k s))
          (tried f (rev [lo ..< Suc (length (takeWhile P s))])))"
  then obtain k where k: "k \<in> set (tried f (rev [lo ..< Suc (length (takeWhile P s))]))"
    and x: "x = rx_peak re (b \<and> k = 0) (d + k) (drop k s)"
    by auto
  from k set_tried [of f "rev [lo ..< Suc (length (takeWhile P s))]"]
  have "k \<le> length (takeWhile P s)" by auto
  with length_takeWhile_le [of P s] have "k \<le> length s" by linarith
  with IH [of "b \<and> k = 0" "d + k" "drop k s"] x show "x \<le> d + length s"
    by simp
qed

lemma rx_peak_le: "rx_peak re b d s \<le> d + length s"
proof (induction re arbitrary: b d s)
  case Nil
  show ?case by simp
next
  case (Cons p re)
  show ?case
  proof (cases p)
    case (One a)
    show ?thesis
    proof (cases s)
      case Nil
      with One show ?thesis by simp
    next
      case (Cons c cs)
      with One Cons.IH [of False "Suc d" cs] show ?thesis by simp
    qed
  next
    case (Rep lo a)
    show ?thesis
      unfolding Rep rx_peak.simps by (rule rx_peak_repetition_le [OF Cons.IH])
  next
    case (Capture lo a)
    show ?thesis
      unfolding Capture rx_peak.simps by (rule rx_peak_repetition_le [OF Cons.IH])
  next
    case Bol
    with Cons.IH [of True d s] show ?thesis by simp
  qed
qed

lemma rx_peak_run_ge:
  "d + length (takeWhile (atom_ok a) s) \<le> rx_peak (Rep lo a # re) b d s"
  "d + length (takeWhile (atom_ok a) s) \<le> rx_peak (Capture lo a # re) b d s"
  unfolding rx_peak.simps by (rule foldr_max_ge)+

lemma rx_exec_fits:
  "rx_peak re b 0 s \<le> stack \<Longrightarrow> rx_exec stack re b s = Returned (rx_match re b s)"
  by (simp add: rx_exec_def)

lemma rx_exec_short:
  "length s \<le> stack \<Longrightarrow> rx_exec stack re b s = Returned (rx_match re b s)"
  using rx_peak_le [of re b 0 s] by (simp add: rx_exec_def)

lemma rx_exec_deep:
  "stack < rx_peak re b 0 s \<Longrightarrow> rx_exec stack re b s = Killed"
  by (simp add: rx_exec_def)

lemma regex_replace_from_replace_all:
  assumes eq: "\<And>b s. map_option (\<lambda>(g, n). (expand fmt g, n)) (rx_match re b s) = m s"
    and fits: "\<And>b k. rx_peak re b 0 (drop k s) \<le> stack"
  shows "regex_replace_from stack re fmt b s = Returned (replace_all m s)"
  using fits
proof (induction "length s" arbitrary: s b rule: less_induct)
  case less
  show ?case
  proof (cases s)
    case Nil
    then show ?thesis by simp
  next
    case (Cons c cs)
    have ex: "rx_exec stack re b (c # cs) = Returned (rx_match re b (c # cs))"
      using less.prems [of b 0] Cons by (simp add: rx_exec_fits)
    have fits_cs: "\<And>b k. rx_peak re b 0 (drop k cs) \<le> stack"
      using less.prems [of _ "Suc _"] Cons by simp
    show ?thesis
    proof (cases "rx_match re b (c # cs)")
      case None
      with eq [of b "c # cs", symmetric] have "m (c # cs) = None" by simp
      moreover have "regex_replace_from stack re fmt False cs = Returned (replace_all m cs)"
        using Cons fits_cs by (intro less) simp_all
      ultimately show ?thesis using None Cons ex by simp
    next
      case (Some gn)
      obtain g n where gn: "gn = (g, n)" by (cases gn)
      with Some eq [of b "c # cs", symmetric] have "m (c # cs) = Some (expand fmt g, n)"
        by simp
      moreover have "regex_replace_from stack re fmt False (drop (n - 1) cs)
          = Returned (replace_all m (drop (n - 1) cs))"
      proof (intro less)
        show "length (drop (n - 1) cs) < length s"
          using Cons by simp
        show "\<And>b k. rx_peak re b 0 (drop k (drop (n - 1) cs)) \<le> stack"
          using fits_cs by simp
      qed
      ultimately show ?thesis using Some gn Cons ex by simp
    qed
  qed
qed

lemma regex_replace_from_short:
  assumes eq: "\<And>b s. map_option (\<lambda>(g, n). (expand fmt g, n)) (rx_match re b s) = m s"
    and short: "length s \<le> stack"
  shows "regex_replace_from stack re fmt b s = Returned (replace_all m s)"
proof (rule regex_replace_from_replace_all [of fmt re m, OF eq])
  fix b k
  have "rx_peak re b 0 (drop k s) \<le> length (drop k s)"
    using rx_peak_le [of re b 0 "drop k s"] by simp
  also have "\<dots> \<le> length s" by simp
  finally show "rx_peak re b 0 (drop k s) \<le> stack"
    using short by simp
qed

section \<open>Markup\<close>

lemma rx_peak_Rep_last: "rx_peak [Rep lo a] b d s = d + length (takeWhile (atom_ok a) s)"
proof (rule antisym)
  show "d + length (takeWhile (atom_ok a) s) \<le> rx_peak [Rep lo a] b d s"
    by (rule rx_peak_run_ge)
  show "rx_peak [Rep lo a] b d s \<le> d + length (takeWhile (atom_ok a) s)"
    unfolding rx_peak.simps
  proof (rule foldr_max_le)
    fix x
    assume "x \<in> set (map (\<lambda>k. d + k)
        (tried (\<lambda>k. rx_match [] (b \<and> k = 0) (drop k s))
           (rev [lo ..< Suc (length (takeWhile (atom_ok a) s))])))"
    then obtain k where "x = d + k"
      and "k \<in> set (tried (\<lambda>k. rx_match [] (b \<and> k = 0) (drop k s))
           (rev [lo ..< Suc (length (takeWhile (atom_ok a) s))]))"
      by auto
    with set_tried [of "\<lambda>k. rx_match [] (b \<and> k = 0) (drop k s)"
        "rev [lo ..< Suc (length (takeWhile (atom_ok a) s))]"]
    show "x \<le> d + length (takeWhile (atom_ok a) s)" by auto
  qed simp
qed

lemma rx_peak_multiSpace: "rx_peak multiSpace b 0 s = length (takeWhile isspace s)"
  by (simp only: multiSpace_def rx_peak_Rep_last atom_ok_Space add_0)

lemma rx_match_multiSpace:
  "rx_match multiSpace b s =
     (if 1 \<le> length (takeWhile isspace s) then Some ([], length (takeWhile isspace s)) else None)"
  by (simp only: multiSpace_def rx_match_Rep_last atom_ok_Space)

lemma regex_replace_multiSpace:
  assumes "\<And>k. length (takeWhile isspace (drop k s)) \<le> stack"
  shows "regex_replace_from stack multiSpace (Literal '' '') b s = Returned (collapse_whitespace s)"
  using assms
proof (induction s arbitrary: b rule: collapse_whitespace.induct)
  case 1
  show ?case by simp
next
  case (2 c cs)
  have ex: "rx_exec stack multiSpace b (c # cs) = Returned (rx_match multiSpace b (c # cs))"
    using "2.prems" [of 0] by (simp add: rx_exec_fits rx_peak_multiSpace)
  show ?case
  proof (cases "isspace c")
    case True
    have "\<And>k. length (takeWhile isspace (drop k (dropWhile isspace cs))) \<le> stack"
    proof -
      fix k
      have "drop k (dropWhile isspace cs)
          = drop (Suc (k + length (takeWhile isspace cs))) (c # cs)"
        by (simp add: drop_length_takeWhile [symmetric])
      then show "length (takeWhile isspace (drop k (dropWhile isspace cs))) \<le> stack"
        using "2.prems" [of "Suc (k + length (takeWhile isspace cs))"] by simp
    qed
    then have "regex_replace_from stack multiSpace (Literal '' '') False (dropWhile isspace cs)
        = Returned (collapse_whitespace (dropWhile isspace cs))"
      by (rule "2.IH"(1) [OF True])
    moreover from True
    have "rx_match multiSpace b (c # cs) = Some ([], Suc (length (takeWhile isspace cs)))"
      by (simp add: rx_match_multiSpace)
    ultimately show ?thesis
      using True ex by (simp add: drop_length_takeWhile)
  next
    case False
    have "\<And>k. length (takeWhile isspace (drop k cs)) \<le> stack"
      using "2.prems" [of "Suc _"] by simp
    then have "regex_replace_from stack multiSpace (Literal '' '') False cs
        = Returned (collapse_whitespace cs)"
      by (rule "2.IH"(2) [OF False])
    moreover from False have "rx_match multiSpace b (c # cs) = None"
      by (simp add: rx_match_multiSpace)
    ultimately show ?thesis
      using False ex by simp
  qed
qed

lemma regex_replace_multiSpace_killed:
  assumes "stack < n"
  shows "regex_replace_from stack multiSpace fmt b (replicate n (CHR '' '')) = Killed"
proof -
  from assms obtain k where n: "n = Suc k" by (cases n) auto
  have sp: "isspace (CHR '' '')" by (simp add: isspace_def)
  have "rx_peak multiSpace b 0 (replicate n (CHR '' '')) = n"
    by (simp add: rx_peak_multiSpace takeWhile_replicate sp)
  with assms have "rx_exec stack multiSpace b (replicate n (CHR '' '')) = Killed"
    by (simp add: rx_exec_deep)
  then show ?thesis
    by (simp add: n)
qed

lemma length_strip_tags: "length (strip_tags in_tag xml) \<le> length xml"
  by (induction in_tag xml rule: strip_tags.induct) (auto simp: le_SucI)

lemma strip_tags_spaces: "strip_tags False (replicate n (CHR '' '')) = replicate n (CHR '' '')"
  by (induction n) simp_all

lemma extractTextFromXML_spec:
  assumes "\<And>k. length (takeWhile isspace (drop k (strip_tags False xml))) \<le> stack"
  shows "extractTextFromXML stack xml = Returned (collapse_whitespace (strip_tags False xml))"
  using regex_replace_multiSpace [of "strip_tags False xml" stack True, OF assms]
  by (simp add: extractTextFromXML_def regex_replace_def extractTextFromXML_loop_strip_tags)

lemma extractTextFromXML_short:
  assumes "length xml \<le> stack"
  shows "extractTextFromXML stack xml = Returned (collapse_whitespace (strip_tags False xml))"
proof (rule extractTextFromXML_spec)
  fix k
  have "length (takeWhile isspace (drop k (strip_tags False xml)))
      \<le> length (drop k (strip_tags False xml))"
    by (rule length_takeWhile_le)
  also have "\<dots> \<le> length (strip_tags False xml)" by simp
  also have "\<dots> \<le> length xml" by (rule length_strip_tags)
  finally show "length (takeWhile isspace (drop k (strip_tags False xml))) \<le> stack"
    using assms by simp
qed

lemma extractTextFromXML_killed:
  assumes "stack < n"
  shows "extractTextFromXML stack (replicate n (CHR '' '')) = Killed"
  using regex_replace_multiSpace_killed [OF assms]
  by (simp add: extractTextFromXML_def regex_replace_def extractTextFromXML_loop_strip_tags
      strip_tags_spaces)

lemma xml_example_out:
  "collapse_whitespace (strip_tags False ''<p>Hello <b>World</b></p>'') = '' Hello World ''"
  by code_simp


text \<open>
  C5: a run of whitespace longer than the depth the stack holds kills the process.
  On a text of \<open>n\<close> spaces with \<open>stack < n\<close> the matcher of \<^verbatim>\<open>\s+\<close> takes the whole run
  first, one call inside the other, and \<^verbatim>\<open>extractTextFromXML\<close>, \<^verbatim>\<open>XMLParser::parse\<close>
  and \<^verbatim>\<open>parseDocument\<close> do not return: there is no content. When every run of
  whitespace of the tag-stripped text fits (as on every input no longer than \<open>stack\<close>
  characters), the content is the tag-stripped text with every maximal run of
  whitespace collapsed into one space: a text without whitespace is unchanged by the
  collapse, and a run of whitespace between two texts that do not touch it with
  whitespace becomes one space. On \<^verbatim>\<open><p>Hello <b>World</b></p>\<close> the content is then
  \<open>" Hello World "\<close>, the space at either end kept.
\<close>

theorem extractTextFromXML_stack_overflow:
  "(stack < n \<longrightarrow> extractTextFromXML stack (replicate n (CHR '' '')) = Killed) \<and>
   (stack < n \<and> fs filename = Some (replicate n (CHR '' ''))
      \<longrightarrow> XMLParser_parse stack fs filename = Killed) \<and>
   (stack < n \<and> fs ''big.html'' = Some (replicate n (CHR '' ''))
      \<longrightarrow> parseDocument stack fs ''big.html'' = Killed) \<and>
   ((\<forall>k. length (takeWhile isspace (drop k (strip_tags False xml))) \<le> stack)
      \<longrightarrow> extractTextFromXML stack xml = Returned (collapse_whitespace (strip_tags False xml))) \<and>
   (length xml \<le> stack
      \<longrightarrow> extractTextFromXML stack xml = Returned (collapse_whitespace (strip_tags False xml))) \<and>
   (\<forall>doc. length xml \<le> stack \<and> fs filename = Some xml \<and>
          XMLParser_parse stack fs filename = Returned (Inr doc)
      \<longrightarrow> content doc = collapse_whitespace (strip_tags False xml)) \<and>
   ((\<forall>c \<in> set s. \<not> isspace c) \<longrightarrow> collapse_whitespace s = s) \<and>
   ((u = [] \<or> \<not> isspace (last u)) \<and> w \<noteq> [] \<and> (\<forall>c \<in> set w. isspace c) \<and>
    (v = [] \<or> \<not> isspace (hd v))
      \<longrightarrow> collapse_whitespace (u @ w @ v) = collapse_whitespace u @ '' '' @ collapse_whitespace v) \<and>
   (25 \<le> stack
      \<longrightarrow> extractTextFromXML stack ''<p>Hello <b>World</b></p>'' = Returned '' Hello World '')"
proof (intro conjI allI impI)
  assume "stack < n"
  then show "extractTextFromXML stack (replicate n (CHR '' '')) = Killed"
    by (rule extractTextFromXML_killed)
next
  assume "stack < n \<and> fs filename = Some (replicate n (CHR '' ''))"
  then show "XMLParser_parse stack fs filename = Killed"
    by (simp add: XMLParser_parse_Some extractTextFromXML_killed)
next
  assume a: "stack < n \<and> fs ''big.html'' = Some (replicate n (CHR '' ''))"
  have "detect ''big.html'' = Some XMLParser" by code_simp
  with a show "parseDocument stack fs ''big.html'' = Killed"
    by (simp add: parseDocument_detect XMLParser_parse_Some extractTextFromXML_killed)
next
  assume "\<forall>k. length (takeWhile isspace (drop k (strip_tags False xml))) \<le> stack"
  then show "extractTextFromXML stack xml = Returned (collapse_whitespace (strip_tags False xml))"
    by (intro extractTextFromXML_spec) simp
next
  assume "length xml \<le> stack"
  then show "extractTextFromXML stack xml = Returned (collapse_whitespace (strip_tags False xml))"
    by (rule extractTextFromXML_short)
next
  fix doc
  assume "length xml \<le> stack \<and> fs filename = Some xml \<and>
          XMLParser_parse stack fs filename = Returned (Inr doc)"
  then show "content doc = collapse_whitespace (strip_tags False xml)"
    by (auto simp: XMLParser_parse_Some extractTextFromXML_short)
next
  assume "\<forall>c \<in> set s. \<not> isspace c"
  then show "collapse_whitespace s = s"
    by (rule collapse_whitespace_id)
next
  assume "(u = [] \<or> \<not> isspace (last u)) \<and> w \<noteq> [] \<and> (\<forall>c \<in> set w. isspace c) \<and>
    (v = [] \<or> \<not> isspace (hd v))"
  then show "collapse_whitespace (u @ w @ v) = collapse_whitespace u @ '' '' @ collapse_whitespace v"
    using collapse_whitespace_run [of u w v] by blast
next
  assume "25 \<le> stack"
  then have "extractTextFromXML stack ''<p>Hello <b>World</b></p>''
      = Returned (collapse_whitespace (strip_tags False ''<p>Hello <b>World</b></p>''))"
    by (intro extractTextFromXML_short) simp
  then show "extractTextFromXML stack ''<p>Hello <b>World</b></p>'' = Returned '' Hello World ''"
    by (simp only: xml_example_out)
qed

theorem extractTextFromXML_stack_overflow_witness:
  "extractTextFromXML 29999 (replicate 30000 (CHR '' '')) = Killed \<and>
   parseDocument 29999 [''big.html'' \<mapsto> replicate 30000 (CHR '' '')] ''big.html'' = Killed \<and>
   extractTextFromXML 1000 ''<p>Hello <b>World</b></p>'' = Returned '' Hello World '' \<and>
   collapse_whitespace ''Hello'' = ''Hello'' \<and>
   collapse_whitespace (''a'' @ [CHR '' '', tab, newline] @ ''b'') = ''a b''"
proof -
  note T = extractTextFromXML_stack_overflow
    [of 29999 30000 "[''big.html'' \<mapsto> replicate 30000 (CHR '' '')]" "''big.html''"
        "''<p>Hello <b>World</b></p>''" "''Hello''" "''a''" "[CHR '' '', tab, newline]" "''b''"]
  note U = extractTextFromXML_stack_overflow
    [of 1000 30000 Map.empty "''big.html''"
        "''<p>Hello <b>World</b></p>''" "''Hello''" "''a''" "[CHR '' '', tab, newline]" "''b''"]
  have lt: "(29999::nat) < 30000" by simp
  have fs: "[''big.html'' \<mapsto> replicate 30000 (CHR '' '')] ''big.html''
      = Some (replicate 30000 (CHR '' ''))"
    by (simp only: fun_upd_same)
  have le: "(25::nat) \<le> 1000" by simp
  have sp: "\<not> isspace (last ''a'')" "[CHR '' '', tab, newline] \<noteq> []"
    "\<forall>c \<in> set [CHR '' '', tab, newline]. isspace c" "\<not> isspace (hd ''b'')"
    "\<forall>c \<in> set ''Hello''. \<not> isspace c"
    by (simp_all add: isspace_def)
  from T lt have k1: "extractTextFromXML 29999 (replicate 30000 (CHR '' '')) = Killed"
    by blast
  from T lt fs
  have k2: "parseDocument 29999 [''big.html'' \<mapsto> replicate 30000 (CHR '' '')] ''big.html'' = Killed"
    by blast
  from U le have e: "extractTextFromXML 1000 ''<p>Hello <b>World</b></p>'' = Returned '' Hello World ''"
    by blast
  from T sp have h: "collapse_whitespace ''Hello'' = ''Hello''" by blast
  have ca: "collapse_whitespace ''a'' = ''a''" "collapse_whitespace ''b'' = ''b''"
    by (simp_all add: isspace_def)
  from T sp have "collapse_whitespace (''a'' @ [CHR '' '', tab, newline] @ ''b'')
       = collapse_whitespace ''a'' @ '' '' @ collapse_whitespace ''b''"
    by blast
  with ca have r: "collapse_whitespace (''a'' @ [CHR '' '', tab, newline] @ ''b'') = ''a b''"
    by simp
  from k1 k2 e h r show ?thesis by blast
qed


section \<open>LightMarkup\<close>

lemma rx_exec_rx_header_later: "rx_exec stack rx_header False s = Returned None"
  by (simp add: rx_exec_def rx_header_def)

lemma regex_replace_from_header_later: "regex_replace_from stack rx_header fmt False s = Returned s"
  by (induction s) (simp_all add: rx_exec_rx_header_later)

lemma regex_replace_rx_header:
  assumes "rx_peak rx_header True 0 s \<le> stack"
  shows "regex_replace stack s rx_header (Literal []) = Returned (strip_leading_header s)"
proof (cases s)
  case Nil
  then show ?thesis by (simp add: regex_replace_def strip_leading_header_def)
next
  case (Cons c cs)
  from assms have ex: "rx_exec stack rx_header True s = Returned (rx_match rx_header True s)"
    by (rule rx_exec_fits)
  show ?thesis
  proof (cases "c = CHR ''#''")
    case True
    let ?k = "length (takeWhile (\<lambda>c. c = CHR ''#'') cs)"
    let ?r = "dropWhile (\<lambda>c. c = CHR ''#'') cs"
    from True Cons have m: "rx_match rx_header True s = Some ([], Suc ?k + length (takeWhile isspace ?r))"
      by (simp add: rx_match_rx_header_begin)
    have "drop (?k + length (takeWhile isspace ?r)) cs = drop (length (takeWhile isspace ?r)) (drop ?k cs)"
      by (simp add: add.commute)
    also have "\<dots> = dropWhile isspace ?r"
      by (simp only: drop_length_takeWhile)
    finally have "drop (?k + length (takeWhile isspace ?r)) cs = dropWhile isspace ?r" .
    with m ex True Cons show ?thesis
      by (simp add: regex_replace_def strip_leading_header_def regex_replace_from_header_later)
  next
    case False
    with Cons have "rx_match rx_header True s = None"
      by (simp add: rx_match_rx_header_begin)
    with ex False Cons show ?thesis
      by (simp add: regex_replace_def strip_leading_header_def regex_replace_from_header_later)
  qed
qed

lemma rx_peak_rx_header_no_hash:
  assumes "s = [] \<or> hd s \<noteq> CHR ''#''"
  shows "rx_peak rx_header True 0 s = 0"
proof -
  from assms have "takeWhile (\<lambda>c. c = CHR ''#'') s = []"
    by (cases s) auto
  then show ?thesis
    by (simp add: rx_header_def atom_ok_Ch)
qed

lemma length_strip_leading_header: "length (strip_leading_header s) \<le> length s"
proof (cases s)
  case Nil
  then show ?thesis by (simp add: strip_leading_header_def)
next
  case (Cons c cs)
  have "length (dropWhile isspace (dropWhile (\<lambda>x. x = CHR ''#'') cs))
      \<le> length (dropWhile (\<lambda>x. x = CHR ''#'') cs)"
    by (rule length_dropWhile_le)
  also have "\<dots> \<le> length cs" by (rule length_dropWhile_le)
  finally show ?thesis using Cons by (simp add: strip_leading_header_def)
qed

lemma length_replace_all:
  assumes "\<And>t out n. m t = Some (out, n) \<Longrightarrow> length out \<le> n \<and> n \<le> length t"
  shows "length (replace_all m s) \<le> length s"
proof (induction "length s" arbitrary: s rule: less_induct)
  case less
  show ?case
  proof (cases s)
    case Nil
    then show ?thesis by simp
  next
    case (Cons c cs)
    show ?thesis
    proof (cases "m (c # cs)")
      case None
      moreover have "length (replace_all m cs) \<le> length cs"
        using Cons by (intro less) simp
      ultimately show ?thesis using Cons by simp
    next
      case (Some on)
      obtain out n where on: "on = (out, n)" by (cases on)
      with Some assms [of "c # cs" out n] have b: "length out \<le> n" "n \<le> Suc (length cs)"
        by simp_all
      have "length (replace_all m (drop (n - 1) cs)) \<le> length (drop (n - 1) cs)"
        using Cons by (intro less) simp
      with b Some on Cons show ?thesis by simp
    qed
  qed
qed

lemma wrapped_bounds:
  assumes "wrapped lo opening stop (stop # closing) t = Some (out, n)"
  shows "length out \<le> n \<and> n \<le> length t"
  using assms unfolding wrapped_Some_iff by auto

lemma length_replace_bold: "length (replace_all bold_at s) \<le> length s"
  by (rule length_replace_all) (simp add: bold_at_def wrapped_bounds)

lemma length_replace_italic: "length (replace_all italic_at s) \<le> length s"
  by (rule length_replace_all) (simp add: italic_at_def wrapped_bounds)

lemma length_replace_code: "length (replace_all code_at s) \<le> length s"
  by (rule length_replace_all) (simp add: code_at_def wrapped_bounds)

lemma length_replace_fence: "length (replace_all fence_at s) \<le> length s"
proof (rule length_replace_all)
  fix t out n
  assume "fence_at t = Some (out, n)"
  then show "length out \<le> n \<and> n \<le> length t"
    unfolding fence_at_iff by auto
qed

lemma length_replace_link: "length (replace_all link_at s) \<le> length s"
proof (rule length_replace_all)
  fix t out n
  assume "link_at t = Some (out, n)"
  then show "length out \<le> n \<and> n \<le> length t"
    unfolding link_at_iff by auto
qed

lemma then_replace_short:
  assumes eq: "\<And>b s. map_option (\<lambda>(g, n). (expand fmt g, n)) (rx_match re b s) = m s"
    and short: "length s \<le> stack"
  shows "then_replace stack re fmt (Returned s) = Returned (replace_all m s)"
  using regex_replace_from_short [of fmt re m s stack True, OF eq short]
  by (simp add: then_replace_def regex_replace_def)

lemma convertMarkdownToText_passes:
  assumes "length md \<le> stack"
  shows "convertMarkdownToText stack md =
     Returned (replace_all code_at (replace_all fence_at (replace_all link_at
       (replace_all italic_at (replace_all bold_at (strip_leading_header md))))))"
proof -
  let ?s1 = "strip_leading_header md"
  let ?s2 = "replace_all bold_at ?s1"
  let ?s3 = "replace_all italic_at ?s2"
  let ?s4 = "replace_all link_at ?s3"
  let ?s5 = "replace_all fence_at ?s4"
  have l1: "length ?s1 \<le> stack"
    using length_strip_leading_header [of md] assms by simp
  have l2: "length ?s2 \<le> stack"
    using length_replace_bold [of ?s1] l1 by simp
  have l3: "length ?s3 \<le> stack"
    using length_replace_italic [of ?s2] l2 by simp
  have l4: "length ?s4 \<le> stack"
    using length_replace_link [of ?s3] l3 by simp
  have l5: "length ?s5 \<le> stack"
    using length_replace_fence [of ?s4] l4 by simp
  have "rx_peak rx_header True 0 md \<le> stack"
    using rx_peak_le [of rx_header True 0 md] assms by simp
  then have p1: "then_replace stack rx_header (Literal []) (Returned md) = Returned ?s1"
    by (simp add: then_replace_def regex_replace_rx_header)
  note p2 = then_replace_short [of Group1 rx_bold bold_at, OF rx_match_rx_bold l1]
  note p3 = then_replace_short [of Group1 rx_italic italic_at, OF rx_match_rx_italic l2]
  note p4 = then_replace_short [of Group1 rx_link link_at, OF rx_match_rx_link l3]
  note p5 = then_replace_short [of "Literal []" rx_fence fence_at, OF rx_match_rx_fence l4]
  note p6 = then_replace_short [of Group1 rx_code code_at, OF rx_match_rx_code l5]
  show ?thesis
    unfolding convertMarkdownToText_def Let_def p1 p2 p3 p4 p5 p6 ..
qed

lemma regex_replace_from_first_differs:
  assumes "\<forall>c \<in> set t. c \<noteq> d"
  shows "regex_replace_from stack (One (Ch d) # re) fmt b t = Returned t"
  using assms by (induction t arbitrary: b) (simp_all add: rx_exec_def)

lemma then_replace_Killed: "then_replace stack re fmt Killed = Killed"
  by (simp add: then_replace_def)

lemma convertMarkdownToText_killed:
  assumes "stack < n"
  shows "convertMarkdownToText stack (CHR ''*'' # replicate n (CHR ''a'')) = Killed"
proof -
  let ?s = "CHR ''*'' # replicate n (CHR ''a'')"
  from assms obtain k where n: "n = Suc k" by (cases n) auto
  have "rx_peak rx_header True 0 ?s = 0"
    by (rule rx_peak_rx_header_no_hash) simp
  then have "regex_replace stack ?s rx_header (Literal []) = Returned (strip_leading_header ?s)"
    by (intro regex_replace_rx_header) simp
  then have p1: "then_replace stack rx_header (Literal []) (Returned ?s) = Returned ?s"
    by (simp add: then_replace_def strip_leading_header_def)
  have rest: "regex_replace_from stack rx_bold Group1 False (replicate n (CHR ''a''))
      = Returned (replicate n (CHR ''a''))"
    unfolding rx_bold_def by (rule regex_replace_from_first_differs) simp
  have nomatch: "rx_match rx_bold True ?s = None"
    by (simp add: rx_bold_def n)
  have p2: "then_replace stack rx_bold Group1 (Returned ?s) = Killed
      \<or> then_replace stack rx_bold Group1 (Returned ?s) = Returned ?s"
    using rest nomatch
    by (cases "rx_exec stack rx_bold True ?s")
      (auto simp: then_replace_def regex_replace_def rx_exec_def split: if_splits)
  have "1 + length (takeWhile (atom_ok (NotCh (CHR ''*''))) (replicate n (CHR ''a'')))
      \<le> rx_peak (Capture 1 (NotCh (CHR ''*'')) # [One (Ch (CHR ''*''))]) False 1
           (replicate n (CHR ''a''))"
    by (rule rx_peak_run_ge)
  then have "Suc n \<le> rx_peak rx_italic True 0 ?s"
    by (simp add: rx_italic_def takeWhile_replicate del: rx_peak.simps(5))
  with assms have "rx_exec stack rx_italic True ?s = Killed"
    by (simp add: rx_exec_deep)
  then have p3: "then_replace stack rx_italic Group1 (Returned ?s) = Killed"
    by (simp add: then_replace_def regex_replace_def)
  from p2 show ?thesis
    unfolding convertMarkdownToText_def Let_def p1
    by (auto simp: p3 then_replace_Killed)
qed

lemma md_example_out:
  "replace_all code_at (replace_all fence_at (replace_all link_at (replace_all italic_at
     (replace_all bold_at (strip_leading_header md_example)))))
   = ''Title'' @ [newline] @ ''bold and em and link and code''"
  unfolding md_example_def by code_simp

lemma md_second_line_header:
  "replace_all code_at (replace_all fence_at (replace_all link_at (replace_all italic_at
     (replace_all bold_at (strip_leading_header (''x'' @ [newline] @ ''# Title''))))))
   = ''x'' @ [newline] @ ''# Title''"
  by code_simp

lemma length_md_example: "length md_example = 52"
  by (simp add: md_example_def)


text \<open>
  C6: a text of \<^verbatim>\<open>*\<close> and \<open>n\<close> letters after it, with \<open>stack < n\<close>, kills the process:
  at the \<^verbatim>\<open>*\<close> the matcher of \<^verbatim>\<open>\*([^*]+)\*\<close> takes the whole rest of the text, one call
  inside the other, before it finds that no \<^verbatim>\<open>*\<close> closes it, and
  \<^verbatim>\<open>convertMarkdownToText\<close>, \<^verbatim>\<open>MarkdownParser::parse\<close> and \<^verbatim>\<open>parseDocument\<close> do not
  return. On an input no longer than \<open>stack\<close> characters the result is the six steps in
  their order: the header run at the very start of the content (and nowhere else) goes
  with the whitespace after it, then the forms \<^verbatim>\<open>**X**\<close>, \<^verbatim>\<open>*X*\<close>, \<^verbatim>\<open>[X](Y)\<close>, the fenced
  blocks and \<^verbatim>\<open>`X`\<close> are replaced, each pass over the result of the pass before (what
  the forms are is \<open>bold_at_iff\<close>, \<open>italic_at_iff\<close>, \<open>link_at_iff\<close>, \<open>fence_at_iff\<close> and
  \<open>code_at_iff\<close>). A content that does not start with \<^verbatim>\<open>#\<close> keeps its headers. On the
  example the result is then \<open>Title\<close>, a newline and \<open>bold and em and link and code\<close>.
\<close>

theorem convertMarkdownToText_stack_overflow:
  "(stack < n \<longrightarrow> convertMarkdownToText stack (CHR ''*'' # replicate n (CHR ''a'')) = Killed) \<and>
   (stack < n \<and> fs filename = Some (CHR ''*'' # replicate n (CHR ''a''))
      \<longrightarrow> MarkdownParser_parse stack fs filename = Killed) \<and>
   (stack < n \<and> fs ''big.md'' = Some (CHR ''*'' # replicate n (CHR ''a''))
      \<longrightarrow> parseDocument stack fs ''big.md'' = Killed) \<and>
   (length md \<le> stack \<longrightarrow>
      convertMarkdownToText stack md =
        Returned (replace_all code_at (replace_all fence_at (replace_all link_at
          (replace_all italic_at (replace_all bold_at (strip_leading_header md))))))) \<and>
   (\<forall>doc. length md \<le> stack \<and> fs filename = Some md \<and>
          MarkdownParser_parse stack fs filename = Returned (Inr doc)
      \<longrightarrow> content doc =
            replace_all code_at (replace_all fence_at (replace_all link_at
              (replace_all italic_at (replace_all bold_at (strip_leading_header md)))))) \<and>
   (md = [] \<or> hd md \<noteq> CHR ''#'' \<longrightarrow> strip_leading_header md = md) \<and>
   ((\<forall>c \<in> set w. isspace c) \<and> (v = [] \<or> \<not> isspace (hd v)) \<and>
    (w \<noteq> [] \<or> v = [] \<or> hd v \<noteq> CHR ''#'')
      \<longrightarrow> strip_leading_header (replicate (Suc k) (CHR ''#'') @ w @ v) = v) \<and>
   (52 \<le> stack \<longrightarrow>
      convertMarkdownToText stack md_example
        = Returned (''Title'' @ [newline] @ ''bold and em and link and code'')) \<and>
   (9 \<le> stack \<longrightarrow>
      convertMarkdownToText stack (''x'' @ [newline] @ ''# Title'')
        = Returned (''x'' @ [newline] @ ''# Title''))"
proof (intro conjI allI impI)
  assume "stack < n"
  then show "convertMarkdownToText stack (CHR ''*'' # replicate n (CHR ''a'')) = Killed"
    by (rule convertMarkdownToText_killed)
next
  assume "stack < n \<and> fs filename = Some (CHR ''*'' # replicate n (CHR ''a''))"
  then show "MarkdownParser_parse stack fs filename = Killed"
    by (simp add: MarkdownParser_parse_Some convertMarkdownToText_killed)
next
  assume a: "stack < n \<and> fs ''big.md'' = Some (CHR ''*'' # replicate n (CHR ''a''))"
  have "detect ''big.md'' = Some MarkdownParser" by code_simp
  with a show "parseDocument stack fs ''big.md'' = Killed"
    by (simp add: parseDocument_detect MarkdownParser_parse_Some convertMarkdownToText_killed)
next
  assume "length md \<le> stack"
  then show "convertMarkdownToText stack md =
        Returned (replace_all code_at (replace_all fence_at (replace_all link_at
          (replace_all italic_at (replace_all bold_at (strip_leading_header md))))))"
    by (rule convertMarkdownToText_passes)
next
  fix doc
  assume "length md \<le> stack \<and> fs filename = Some md \<and>
          MarkdownParser_parse stack fs filename = Returned (Inr doc)"
  then show "content doc =
            replace_all code_at (replace_all fence_at (replace_all link_at
              (replace_all italic_at (replace_all bold_at (strip_leading_header md)))))"
    by (auto simp: MarkdownParser_parse_Some convertMarkdownToText_passes)
next
  assume "md = [] \<or> hd md \<noteq> CHR ''#''"
  then show "strip_leading_header md = md"
    by (rule strip_leading_header_no_hash)
next
  assume "(\<forall>c \<in> set w. isspace c) \<and> (v = [] \<or> \<not> isspace (hd v)) \<and>
    (w \<noteq> [] \<or> v = [] \<or> hd v \<noteq> CHR ''#'')"
  then show "strip_leading_header (replicate (Suc k) (CHR ''#'') @ w @ v) = v"
    using strip_leading_header_hashes [of w v k] by blast
next
  assume "52 \<le> stack"
  then have "length md_example \<le> stack" by (simp only: length_md_example)
  then show "convertMarkdownToText stack md_example
        = Returned (''Title'' @ [newline] @ ''bold and em and link and code'')"
    by (simp only: convertMarkdownToText_passes md_example_out)
next
  assume "9 \<le> stack"
  then have "length (''x'' @ [newline] @ ''# Title'') \<le> stack" by simp
  then show "convertMarkdownToText stack (''x'' @ [newline] @ ''# Title'')
        = Returned (''x'' @ [newline] @ ''# Title'')"
    by (simp only: convertMarkdownToText_passes md_second_line_header)
qed

theorem convertMarkdownToText_stack_overflow_witness:
  "convertMarkdownToText 29999 (CHR ''*'' # replicate 30000 (CHR ''a'')) = Killed \<and>
   parseDocument 29999 [''big.md'' \<mapsto> CHR ''*'' # replicate 30000 (CHR ''a'')] ''big.md'' = Killed \<and>
   convertMarkdownToText 1000 md_example
     = Returned (''Title'' @ [newline] @ ''bold and em and link and code'') \<and>
   convertMarkdownToText 1000 (''x'' @ [newline] @ ''# Title'')
     = Returned (''x'' @ [newline] @ ''# Title'') \<and>
   strip_leading_header (''##'' @ [CHR '' '', newline] @ ''# Title'') = ''# Title''"
proof -
  note T = convertMarkdownToText_stack_overflow
    [of 29999 30000 "[''big.md'' \<mapsto> CHR ''*'' # replicate 30000 (CHR ''a'')]" "''big.md''"
        md_example "[CHR '' '', newline]" "''# Title''" 1]
  note U = convertMarkdownToText_stack_overflow
    [of 1000 30000 Map.empty "''big.md''" md_example "[CHR '' '', newline]" "''# Title''" 1]
  have lt: "(29999::nat) < 30000" by simp
  have fs: "[''big.md'' \<mapsto> CHR ''*'' # replicate 30000 (CHR ''a'')] ''big.md''
      = Some (CHR ''*'' # replicate 30000 (CHR ''a''))"
    by (simp only: fun_upd_same)
  have le: "(52::nat) \<le> 1000" "(9::nat) \<le> 1000" by simp_all
  have sp: "\<forall>c \<in> set [CHR '' '', newline]. isspace c" "\<not> isspace (hd ''# Title'')"
    "[CHR '' '', newline] \<noteq> []"
    by (simp_all add: isspace_def)
  from T lt have k1: "convertMarkdownToText 29999 (CHR ''*'' # replicate 30000 (CHR ''a'')) = Killed"
    by blast
  from T lt fs
  have k2: "parseDocument 29999 [''big.md'' \<mapsto> CHR ''*'' # replicate 30000 (CHR ''a'')] ''big.md''
      = Killed"
    by blast
  from U le have e: "convertMarkdownToText 1000 md_example
     = Returned (''Title'' @ [newline] @ ''bold and em and link and code'')"
    by blast
  from U le have x: "convertMarkdownToText 1000 (''x'' @ [newline] @ ''# Title'')
     = Returned (''x'' @ [newline] @ ''# Title'')"
    by blast
  from T sp
  have "strip_leading_header (replicate (Suc 1) (CHR ''#'') @ [CHR '' '', newline] @ ''# Title'')
      = ''# Title''"
    by blast
  then have h: "strip_leading_header (''##'' @ [CHR '' '', newline] @ ''# Title'') = ''# Title''"
    by (simp add: numeral_2_eq_2)
  from k1 k2 e x h show ?thesis by blast
qed

end
